theory Spec2Isabelle
  imports Main "HOL-Library.Word"
begin

section \<open>The AST engine of Rebecca (src/Tree.c) as a heap program\<close>

text \<open>
  Tree.c builds a pointer structure: every \<open>Node\<close> is a separately allocated cell that
  holds a pointer to its parent and a growable array of pointers to its children, and a
  \<open>Tree\<close> holds pointers to its root and to its cursor. Several trees may point into
  the same nodes (\<open>AppendTree\<close> makes two cursors alias), so the model is an explicit
  store: a map from addresses to node cells and a map from addresses to tree cells.
  A pointer is a 64-bit address, \<open>0\<close> is the C null pointer.

  Every C function becomes a function from the store to either a fault or the updated
  store. A failed \<open>assert\<close> is the fault \<open>AssertFail\<close> (the process aborts); reading
  through a null pointer, through a pointer to no live cell, or outside an array is
  undefined behaviour in C and is the fault \<open>NullDeref\<close>, \<open>BadPtr\<close> or
  \<open>OutOfBounds\<close>.
\<close>

subsection \<open>Data model\<close>

type_synonym addr = "64 word"

text \<open>
  Modelled from the spec: the header include/RebeccaGenerator.h, which declares the
  \<open>TokenType\<close> and \<open>PrsrNdType\<close> enumerations, the \<open>Token\<close>, \<open>Node\<close>, \<open>Tree\<close>
  and \<open>Array\<close> structs and the helpers \<open>ArrayCtor\<close>, \<open>ArrayAdd\<close>,
  \<open>FillEmptyStr\<close> and \<open>TranslateTokenType\<close>, is not among the sources. (The
  header RebeccaCompiler.h that is among them has a \<open>TokenType\<close> without
  \<open>TOKEN_SEMICOLON\<close>, \<open>TOKEN_DOUBLE_QUOTE\<close> and \<open>TOKEN_SINGLE_QUOTE\<close> and a
  \<open>Token\<close> without \<open>parser_type\<close>: it is not the one Tree.c is compiled against.)
  The enumerators that Tree.c names are constructors; every other enumerator of the same
  enumeration is \<open>TOKEN_OTHER k\<close>, respectively \<open>PRSR_OTHER k\<close>. The structs have the
  fields that Tree.c reads and writes; an \<open>Array\<close> of node pointers is the list of its
  elements, and \<open>ArrayAdd\<close> appends at the end. The \<open>size\<close> of a tree is taken to
  be a 64-bit counter, like the other counters of the repository.
\<close>

datatype TokenType =
    TOKEN_COLON
  | TOKEN_SEMICOLON
  | TOKEN_DOUBLE_QUOTE
  | TOKEN_SINGLE_QUOTE
  | TOKEN_EOF
  | TOKEN_EQ
  | TOKEN_NAME
  | TOKEN_OTHER nat

datatype PrsrNdType =
    VAR_NAME
  | RULE_NAME
  | RULE_NAME_REFERENCE
  | VAR_NAME_REFERENCE
  | PRSR_OTHER nat

text \<open>
  \<open>txt\<close> is a C string pointer: \<open>None\<close> is the null pointer, \<open>Some s\<close> a string.
  The token cell is allocated together with its node by \<open>NodeCtor\<close> and never shared
  or replaced, so it is a field of the node cell. The children array is created by
  \<open>AddChild\<close> for one node and never shared: \<open>None\<close> is the null \<open>children\<close>
  pointer of a node that never had a child, \<open>Some cs\<close> the array with elements \<open>cs\<close>.
\<close>

record Token =
  ttype :: TokenType
  "txt" :: "string option"
  parser_type :: PrsrNdType

record Node =
  token :: Token
  children :: "addr list option"
  parent :: addr
  id_node :: "64 word"

record Tree =
  root :: addr
  current :: addr
  size_tree :: "64 word"

record state =
  nodes :: "addr \<rightharpoonup> Node"
  trees :: "addr \<rightharpoonup> Tree"

datatype fault = AssertFail | NullDeref | BadPtr | OutOfBounds

subsection \<open>Reading through pointers\<close>

definition bind_res :: "fault + 'a \<Rightarrow> ('a \<Rightarrow> fault + 'b) \<Rightarrow> fault + 'b" where
  "bind_res r f = (case r of Inl e \<Rightarrow> Inl e | Inr x \<Rightarrow> f x)"

definition node_at :: "state \<Rightarrow> addr \<Rightarrow> fault + Node" where
  "node_at s p =
     (if p = 0 then Inl NullDeref
      else case nodes s p of None \<Rightarrow> Inl BadPtr | Some n \<Rightarrow> Inr n)"

definition tree_at :: "state \<Rightarrow> addr \<Rightarrow> fault + Tree" where
  "tree_at s t =
     (if t = 0 then Inl NullDeref
      else case trees s t of None \<Rightarrow> Inl BadPtr | Some tr \<Rightarrow> Inr tr)"

definition set_node :: "state \<Rightarrow> addr \<Rightarrow> Node \<Rightarrow> state" where
  "set_node s p n = s\<lparr>nodes := (nodes s)(p \<mapsto> n)\<rparr>"

definition set_tree :: "state \<Rightarrow> addr \<Rightarrow> Tree \<Rightarrow> state" where
  "set_tree s t tr = s\<lparr>trees := (trees s)(t \<mapsto> tr)\<rparr>"

text \<open>\<open>GetChild(n, idx)\<close> reads element \<open>idx\<close> of \<open>n->children->data\<close>.\<close>

definition GetChild :: "state \<Rightarrow> addr \<Rightarrow> nat \<Rightarrow> fault + addr" where
  "GetChild s n idx =
     bind_res (node_at s n) (\<lambda>nd.
       case children nd of
         None \<Rightarrow> Inl NullDeref
       | Some cs \<Rightarrow> if idx < length cs then Inr (cs ! idx) else Inl OutOfBounds)"

subsection \<open>Builder operations\<close>

text \<open>
  \<open>AddChild(t, new_child)\<close>: three assertions in the order of the source, then either
  the rooting branch or the append branch. The append branch creates the children array
  when it is null, appends, writes the parent pointer of the last element of the array
  and moves the cursor. The result carries the returned pointer, the new cursor.
\<close>

definition AddChild :: "state \<Rightarrow> addr \<Rightarrow> addr \<Rightarrow> fault + (state \<times> addr)" where
  "AddChild s t new_child =
     (if t = 0 then Inl AssertFail
      else if new_child = 0 then Inl AssertFail
      else bind_res (node_at s new_child) (\<lambda>nc.
        if txt (token nc) = None then Inl AssertFail
        else bind_res (tree_at s t) (\<lambda>tr.
          if current tr = 0 then
            Inr (set_tree s t (tr\<lparr>root := new_child, current := new_child\<rparr>), new_child)
          else bind_res (node_at s (current tr)) (\<lambda>cur.
            let cs = (case children cur of None \<Rightarrow> [] | Some old \<Rightarrow> old) @ [new_child];
                s1 = set_node s (current tr) (cur\<lparr>children := Some cs\<rparr>)
            in bind_res (GetChild s1 (current tr) (length cs - 1)) (\<lambda>c.
               bind_res (node_at s1 c) (\<lambda>cn.
                 let s2 = set_node s1 c (cn\<lparr>parent := current tr\<rparr>)
                 in Inr (set_tree s2 t (tr\<lparr>current := new_child\<rparr>), new_child)))))))"

text \<open>\<open>Parent(t)\<close>: \<open>t->current = t->current->parent\<close>, with no check at all.\<close>

definition Parent :: "state \<Rightarrow> addr \<Rightarrow> fault + state" where
  "Parent s t =
     bind_res (tree_at s t) (\<lambda>tr.
     bind_res (node_at s (current tr)) (\<lambda>cur.
       Inr (set_tree s t (tr\<lparr>current := parent cur\<rparr>))))"

text \<open>
  \<open>InsertParent(t, n)\<close>. When the cursor has a parent, \<open>memcpy\<close> overwrites the element
  at index \<open>size - 1\<close> of the parent's children array with \<open>n\<close> (an empty array makes
  that a write before the start of the array) and \<open>n->parent\<close> is set. Then the cursor
  moves to \<open>n\<close>, the old cursor is added below it, its parent pointer is written once
  more, the cursor goes back up, and the root is replaced when the old cursor was the root.
\<close>

definition InsertParent :: "state \<Rightarrow> addr \<Rightarrow> addr \<Rightarrow> fault + state" where
  "InsertParent s t n =
     bind_res (tree_at s t) (\<lambda>tr.
     let old_current = current tr in
     bind_res (node_at s old_current) (\<lambda>oc.
     bind_res
       (if parent oc \<noteq> 0 then
          bind_res (node_at s (parent oc)) (\<lambda>pn.
            case children pn of
              None \<Rightarrow> Inl NullDeref
            | Some cs \<Rightarrow>
                if cs = [] then Inl OutOfBounds
                else
                  let s1 = set_node s (parent oc)
                             (pn\<lparr>children := Some (cs[length cs - 1 := n])\<rparr>)
                  in bind_res (node_at s1 n) (\<lambda>nn.
                       Inr (set_node s1 n (nn\<lparr>parent := parent oc\<rparr>))))
        else Inr s) (\<lambda>s2.
     bind_res (tree_at s2 t) (\<lambda>tr2.
     bind_res (AddChild (set_tree s2 t (tr2\<lparr>current := n\<rparr>)) t old_current) (\<lambda>(s4, r).
     bind_res (node_at s4 old_current) (\<lambda>oc4.
     bind_res (Parent (set_node s4 old_current (oc4\<lparr>parent := n\<rparr>)) t) (\<lambda>s6.
     bind_res (tree_at s6 t) (\<lambda>tr6.
       if old_current = root tr6 then Inr (set_tree s6 t (tr6\<lparr>root := n\<rparr>))
       else Inr s6))))))))"

text \<open>
  \<open>AppendTree(first, second)\<close>. The scratch buffer \<open>children\<close> that the first loop
  fills is never read again and is left out; what remains of the first statements is the
  read of \<open>second_cur->children->size\<close>, which needs a children array. The second loop
  reads \<open>second_cur->children->size\<close> again before every iteration, and the array can
  grow while the loop runs, so the loop need not end: it takes fuel, one unit for every
  test of the loop condition, and \<open>None\<close> is a run that has not ended when the fuel is
  used up. \<open>AppendTree_body\<close> is the body of the second loop.
\<close>

definition AppendTree_body :: "state \<Rightarrow> addr \<Rightarrow> addr \<Rightarrow> nat \<Rightarrow> fault + state" where
  "AppendTree_body s first second_cur cur_child =
     bind_res (GetChild s second_cur cur_child) (\<lambda>c.
     bind_res (AddChild s first c) (\<lambda>(s1, r).
     bind_res (Parent s1 first) (\<lambda>s2.
     bind_res (tree_at s2 first) (\<lambda>tr.
     bind_res (GetChild s2 (current tr) cur_child) (\<lambda>c'.
     bind_res (node_at s2 c') (\<lambda>cn.
       Inr (set_node s2 c' (cn\<lparr>parent := current tr\<rparr>))))))))"

fun AppendTree_loop :: "nat \<Rightarrow> state \<Rightarrow> addr \<Rightarrow> addr \<Rightarrow> nat \<Rightarrow> (fault + state) option" where
  "AppendTree_loop 0 s first second_cur cur_child = None"
| "AppendTree_loop (Suc fuel) s first second_cur cur_child =
     (case node_at s second_cur of
        Inl e \<Rightarrow> Some (Inl e)
      | Inr sc \<Rightarrow>
     (case children sc of
        None \<Rightarrow> Some (Inl NullDeref)
      | Some cs \<Rightarrow>
          if cur_child < length cs then
            (case AppendTree_body s first second_cur cur_child of
               Inl e \<Rightarrow> Some (Inl e)
             | Inr s' \<Rightarrow> AppendTree_loop fuel s' first second_cur (Suc cur_child))
          else Some (Inr s)))"

definition AppendTree :: "nat \<Rightarrow> state \<Rightarrow> addr \<Rightarrow> addr \<Rightarrow> (fault + state) option" where
  "AppendTree fuel s first second =
     (case tree_at s second of
        Inl e \<Rightarrow> Some (Inl e)
      | Inr tr2 \<Rightarrow>
     (case node_at s (current tr2) of
        Inl e \<Rightarrow> Some (Inl e)
      | Inr sc \<Rightarrow>
     (case children sc of
        None \<Rightarrow> Some (Inl NullDeref)
      | Some cs \<Rightarrow>
     (case AppendTree_loop fuel s first (current tr2) 0 of
        None \<Rightarrow> None
      | Some (Inl e) \<Rightarrow> Some (Inl e)
      | Some (Inr s') \<Rightarrow>
          Some (bind_res (tree_at s' first) (\<lambda>tr1.
                bind_res (tree_at s' second) (\<lambda>tr2'.
                  Inr (set_tree s' second (tr2'\<lparr>current := current tr1\<rparr>)))))))))"

subsection \<open>Node creation\<close>

text \<open>
  \<open>calloc\<close> returns either the null pointer or the address of a cell that was not
  allocated before, filled with zero bytes. The address it returns is an argument of the
  model (\<open>a\<close> for the node cell, \<open>b\<close> for its token cell), and so are the enumerators
  with value zero, \<open>zt\<close> of \<open>TokenType\<close> and \<open>zp\<close> of \<open>PrsrNdType\<close>, which the
  missing header fixes.
\<close>

definition NodeCtor ::
  "TokenType \<Rightarrow> PrsrNdType \<Rightarrow> state \<Rightarrow> addr \<Rightarrow> addr \<Rightarrow> fault + (state \<times> addr)" where
  "NodeCtor zt zp s a b =
     (if a = 0 then Inl AssertFail
      else if b = 0 then Inl AssertFail
      else Inr (set_node s a
             \<lparr>token = \<lparr>ttype = zt, txt = None, parser_type = zp\<rparr>,
              children = None, parent = 0, id_node = 0\<rparr>, a))"

text \<open>
  Modelled from the spec: \<open>FillEmptyStr(&dst, src)\<close> is declared in the missing header.
  The spec has it copy the text into the node's own token and fail fatally on a token
  with no text.
\<close>

definition FillEmptyStr :: "string option \<Rightarrow> fault + string option" where
  "FillEmptyStr src = (case src of None \<Rightarrow> Inl AssertFail | Some x \<Rightarrow> Inr (Some x))"

text \<open>
  \<open>TranslateTokenType\<close>, the canonical name of a token type, is defined outside
  Tree.c: it is the argument \<open>tn\<close> of every function that calls it.
\<close>

definition CreateNodeByType ::
  "(TokenType \<Rightarrow> string) \<Rightarrow> TokenType \<Rightarrow> PrsrNdType \<Rightarrow> state \<Rightarrow> addr \<Rightarrow> addr
     \<Rightarrow> addr \<Rightarrow> TokenType \<Rightarrow> fault + (state \<times> addr)" where
  "CreateNodeByType tn zt zp s a b t type =
     bind_res (NodeCtor zt zp s a b) (\<lambda>(s1, new_node).
     bind_res (node_at s1 new_node) (\<lambda>nd.
     bind_res (FillEmptyStr (Some (tn type))) (\<lambda>x.
     let s2 = set_node s1 new_node
                (nd\<lparr>token := (token nd)\<lparr>txt := x, ttype := type\<rparr>, id_node := new_node\<rparr>)
     in bind_res (tree_at s2 t) (\<lambda>tr.
          Inr (set_tree s2 t (tr\<lparr>size_tree := size_tree tr + 1\<rparr>), new_node)))))"

text \<open>\<open>CreateNode(t, token)\<close>: the token argument is a pointer, \<open>None\<close> when null.\<close>

definition CreateNode ::
  "TokenType \<Rightarrow> PrsrNdType \<Rightarrow> state \<Rightarrow> addr \<Rightarrow> addr
     \<Rightarrow> addr \<Rightarrow> Token option \<Rightarrow> fault + (state \<times> addr)" where
  "CreateNode zt zp s a b t tok =
     bind_res (NodeCtor zt zp s a b) (\<lambda>(s1, new_node).
     bind_res (node_at s1 new_node) (\<lambda>nd.
     bind_res (case tok of None \<Rightarrow> Inl NullDeref | Some tk \<Rightarrow> Inr tk) (\<lambda>tk.
     bind_res (FillEmptyStr (txt tk)) (\<lambda>x.
     let s2 = set_node s1 new_node
                (nd\<lparr>token := (token nd)\<lparr>txt := x, ttype := ttype tk\<rparr>, id_node := new_node\<rparr>)
     in bind_res (tree_at s2 t) (\<lambda>tr.
          Inr (set_tree s2 t (tr\<lparr>size_tree := size_tree tr + 1\<rparr>), new_node))))))"

text \<open>\<open>TreeCtor(type)\<close>: \<open>ta\<close> is the address \<open>calloc\<close> returns for the tree cell.\<close>

definition TreeCtor ::
  "(TokenType \<Rightarrow> string) \<Rightarrow> TokenType \<Rightarrow> PrsrNdType \<Rightarrow> state \<Rightarrow> addr \<Rightarrow> addr \<Rightarrow> addr
     \<Rightarrow> TokenType \<Rightarrow> fault + (state \<times> addr)" where
  "TreeCtor tn zt zp s ta a b type =
     (if ta = 0 then Inl AssertFail
      else
        let s0 = set_tree s ta \<lparr>root = 0, current = 0, size_tree = 0\<rparr> in
        bind_res (CreateNodeByType tn zt zp s0 a b ta type) (\<lambda>(s1, n).
        bind_res (AddChild s1 ta n) (\<lambda>(s2, r). Inr (s2, ta))))"

subsection \<open>Classification tables\<close>

fun CellBordersFormat :: "TokenType \<Rightarrow> string" where
  "CellBordersFormat TOKEN_COLON = ''none''"
| "CellBordersFormat TOKEN_SEMICOLON = ''none''"
| "CellBordersFormat TOKEN_DOUBLE_QUOTE = ''none''"
| "CellBordersFormat TOKEN_SINGLE_QUOTE = ''none''"
| "CellBordersFormat TOKEN_EOF = ''none''"
| "CellBordersFormat TOKEN_EQ = ''none''"
| "CellBordersFormat TOKEN_NAME = ''rectangle''"
| "CellBordersFormat (TOKEN_OTHER k) = ''diamond''"

fun CheckIfRuleName :: "PrsrNdType \<Rightarrow> string" where
  "CheckIfRuleName VAR_NAME = ''yellow''"
| "CheckIfRuleName RULE_NAME = ''cyan''"
| "CheckIfRuleName RULE_NAME_REFERENCE = ''red''"
| "CheckIfRuleName VAR_NAME_REFERENCE = ''green''"
| "CheckIfRuleName (PRSR_OTHER k) = ''black''"

definition Ttype :: "state \<Rightarrow> addr \<Rightarrow> fault + TokenType" where
  "Ttype s n = bind_res (node_at s n) (\<lambda>nd. Inr (ttype (token nd)))"

subsection \<open>Visualization export\<close>

text \<open>
  The export writes lines to a file. A line is what one \<open>fprintf\<close> call writes: the
  two fixed header lines, the blank line, the footer, a node record (the five arguments
  that \<open>PrintNode\<close> passes with \<open>NODE_FMT\<close>: id, border, colour, text and secondary
  label; the macro itself is in the missing header) or an edge record (the two ids).
  A \<open>FILE *\<close> is the list of lines written so far, \<open>None\<close> when it is null. C strings
  are character lists, and \<open>strcmp(a, b) == 0\<close> is their equality.
\<close>

datatype dot_line =
    Header
  | Density
  | Blank
  | Footer
  | NodeRec "64 word" string string string string
  | Edge "64 word" "64 word"

type_synonym dot_file = "dot_line list"

text \<open>The record that \<open>PrintNode\<close> writes for one node cell: the two branches of its test.\<close>

definition emit_node :: "(TokenType \<Rightarrow> string) \<Rightarrow> Node \<Rightarrow> fault + dot_line" where
  "emit_node tn nd =
     (case txt (token nd) of
        None \<Rightarrow> Inl NullDeref
      | Some x \<Rightarrow>
          if x = tn (ttype (token nd)) then
            Inr (NodeRec (id_node nd) (CellBordersFormat (ttype (token nd)))
                   (CheckIfRuleName (parser_type (token nd))) x [])
          else
            Inr (NodeRec (id_node nd) (CellBordersFormat (ttype (token nd)))
                   (CheckIfRuleName (parser_type (token nd))) x (tn (ttype (token nd)))))"

text \<open>
  \<open>PrintNode\<close> and \<open>ConnectNode\<close> recurse through the store, and a store with a cycle
  makes them recurse for ever: the fuel bounds the depth of the recursion. Neither
  writes to the store, so their loops over \<open>n->children\<close> run over the list that the
  array holds on entry.
\<close>

fun PrintNode ::
    "(TokenType \<Rightarrow> string) \<Rightarrow> nat \<Rightarrow> state \<Rightarrow> dot_file option \<Rightarrow> addr
       \<Rightarrow> (fault + dot_file) option"
  and PrintNode_loop ::
    "(TokenType \<Rightarrow> string) \<Rightarrow> nat \<Rightarrow> state \<Rightarrow> dot_file \<Rightarrow> addr list
       \<Rightarrow> (fault + dot_file) option" where
  "PrintNode tn 0 s f n = None"
| "PrintNode tn (Suc k) s f n =
     (case f of
        None \<Rightarrow> Some (Inl AssertFail)
      | Some out \<Rightarrow>
          if n = 0 then Some (Inl AssertFail)
          else
            (case node_at s n of
               Inl e \<Rightarrow> Some (Inl e)
             | Inr nd \<Rightarrow>
            (case emit_node tn nd of
               Inl e \<Rightarrow> Some (Inl e)
             | Inr r \<Rightarrow>
            (case children nd of
               None \<Rightarrow> Some (Inr (out @ [r]))
             | Some cs \<Rightarrow> PrintNode_loop tn k s (out @ [r]) cs))))"
| "PrintNode_loop tn k s out [] = Some (Inr out)"
| "PrintNode_loop tn k s out (c # cs) =
     (case PrintNode tn k s (Some out) c of
        None \<Rightarrow> None
      | Some (Inl e) \<Rightarrow> Some (Inl e)
      | Some (Inr out') \<Rightarrow> PrintNode_loop tn k s out' cs)"

text \<open>The first loop of \<open>ConnectNode\<close>: one edge record for every child.\<close>

fun ConnectNode_edges :: "state \<Rightarrow> 64 word \<Rightarrow> dot_file \<Rightarrow> addr list \<Rightarrow> fault + dot_file" where
  "ConnectNode_edges s i out [] = Inr out"
| "ConnectNode_edges s i out (c # cs) =
     (case node_at s c of
        Inl e \<Rightarrow> Inl e
      | Inr cn \<Rightarrow> ConnectNode_edges s i (out @ [Edge i (id_node cn)]) cs)"

fun ConnectNode :: "nat \<Rightarrow> state \<Rightarrow> dot_file option \<Rightarrow> addr \<Rightarrow> (fault + dot_file) option"
  and ConnectNode_loop :: "nat \<Rightarrow> state \<Rightarrow> dot_file \<Rightarrow> addr list \<Rightarrow> (fault + dot_file) option" where
  "ConnectNode 0 s f n = None"
| "ConnectNode (Suc k) s f n =
     (case f of
        None \<Rightarrow> Some (Inl AssertFail)
      | Some out \<Rightarrow>
          if n = 0 then Some (Inl AssertFail)
          else
            (case node_at s n of
               Inl e \<Rightarrow> Some (Inl e)
             | Inr nd \<Rightarrow>
            (case children nd of
               None \<Rightarrow> Some (Inr out)
             | Some cs \<Rightarrow>
            (case ConnectNode_edges s (id_node nd) out cs of
               Inl e \<Rightarrow> Some (Inl e)
             | Inr out1 \<Rightarrow> ConnectNode_loop k s out1 cs))))"
| "ConnectNode_loop k s out [] = Some (Inr out)"
| "ConnectNode_loop k s out (c # cs) =
     (case ConnectNode k s (Some out) c of
        None \<Rightarrow> None
      | Some (Inl e) \<Rightarrow> Some (Inl e)
      | Some (Inr out') \<Rightarrow> ConnectNode_loop k s out' cs)"

text \<open>
  \<open>DebugTree(t)\<close>: \<open>fopen_ok\<close> tells whether \<open>fopen\<close> returned a file, which mode
  \<open>"w"\<close> makes empty. The result is the content of the file when it is closed; the call
  of the external renderer is outside the model.
\<close>

definition DebugTree ::
  "(TokenType \<Rightarrow> string) \<Rightarrow> nat \<Rightarrow> state \<Rightarrow> bool \<Rightarrow> addr \<Rightarrow> (fault + dot_file) option" where
  "DebugTree tn fuel s fopen_ok t =
     (if t = 0 then Some (Inl AssertFail)
      else if \<not> fopen_ok then Some (Inl AssertFail)
      else
        (case tree_at s t of
           Inl e \<Rightarrow> Some (Inl e)
         | Inr tr \<Rightarrow>
        (case PrintNode tn fuel s (Some [Header, Density]) (root tr) of
           None \<Rightarrow> None
         | Some (Inl e) \<Rightarrow> Some (Inl e)
         | Some (Inr out1) \<Rightarrow>
        (case ConnectNode fuel s (Some (out1 @ [Blank])) (root tr) of
           None \<Rightarrow> None
         | Some (Inl e) \<Rightarrow> Some (Inl e)
         | Some (Inr out2) \<Rightarrow> Some (Inr (out2 @ [Footer]))))))"

text \<open>The secondary label of a node record, the last argument passed with \<open>NODE_FMT\<close>.\<close>

fun secondary_label :: "dot_line \<Rightarrow> string" where
  "secondary_label (NodeRec i b c x y) = y"
| "secondary_label l = []"

subsection \<open>Sequences of calls and example stores\<close>

text \<open>A caller that adds the nodes of a list one after the other, stopping at a fault.\<close>

fun AddChild_seq :: "state \<Rightarrow> addr \<Rightarrow> addr list \<Rightarrow> fault + state" where
  "AddChild_seq s t [] = Inr s"
| "AddChild_seq s t (c # cs) =
     (case AddChild s t c of Inl e \<Rightarrow> Inl e | Inr (s', r) \<Rightarrow> AddChild_seq s' t cs)"

text \<open>
  A node cell as \<open>CreateNode\<close> leaves it for a name token with text \<open>x\<close> at address
  \<open>a\<close>, and the same cell with a parent and children.
\<close>

definition leaf :: "addr \<Rightarrow> string \<Rightarrow> Node" where
  "leaf a x =
     \<lparr>token = \<lparr>ttype = TOKEN_NAME, txt = Some x, parser_type = PRSR_OTHER 0\<rparr>,
      children = None, parent = 0, id_node = a\<rparr>"

definition inner :: "addr \<Rightarrow> string \<Rightarrow> addr \<Rightarrow> addr list \<Rightarrow> Node" where
  "inner a x p cs = (leaf a x)\<lparr>children := Some cs, parent := p\<rparr>"

text \<open>An empty tree cell at address 100 and three detached nodes.\<close>

definition st_empty :: state where
  "st_empty =
     \<lparr>nodes = [1 \<mapsto> leaf 1 ''a'', 2 \<mapsto> leaf 2 ''b'', 3 \<mapsto> leaf 3 ''c''],
      trees = [100 \<mapsto> \<lparr>root = 0, current = 0, size_tree = 3\<rparr>]\<rparr>"

text \<open>The tree at 100 holds the single node 1, its root and cursor; node 2 is detached.\<close>

definition st_root :: state where
  "st_root =
     \<lparr>nodes = [1 \<mapsto> leaf 1 ''a'', 2 \<mapsto> leaf 2 ''b''],
      trees = [100 \<mapsto> \<lparr>root = 1, current = 1, size_tree = 2\<rparr>]\<rparr>"

subsection \<open>The tree that a store holds below a node\<close>

text \<open>
  The subtree below an address, read off the store: the address of every node, its token,
  its id and its children in array order. The fuel bounds the depth, and \<open>None\<close> means
  that the store holds no finite tree of that depth there (a dangling child pointer, or
  a deeper or cyclic structure).
\<close>

datatype rose = Rose addr Token "64 word" "rose list"

fun subtree :: "nat \<Rightarrow> state \<Rightarrow> addr \<Rightarrow> rose option"
  and subtrees :: "nat \<Rightarrow> state \<Rightarrow> addr list \<Rightarrow> rose list option" where
  "subtree 0 s a = None"
| "subtree (Suc k) s a =
     (case node_at s a of
        Inl e \<Rightarrow> None
      | Inr nd \<Rightarrow>
     (case children nd of
        None \<Rightarrow> Some (Rose a (token nd) (id_node nd) [])
      | Some cs \<Rightarrow>
     (case subtrees k s cs of
        None \<Rightarrow> None
      | Some ts \<Rightarrow> Some (Rose a (token nd) (id_node nd) ts))))"
| "subtrees k s [] = Some []"
| "subtrees k s (c # cs) =
     (case subtree k s c of
        None \<Rightarrow> None
      | Some T \<Rightarrow>
     (case subtrees k s cs of
        None \<Rightarrow> None
      | Some ts \<Rightarrow> Some (T # ts)))"

fun addrs :: "rose \<Rightarrow> addr set" where
  "addrs (Rose a tok i ts) = insert a (\<Union>T \<in> set ts. addrs T)"

fun rose_id :: "rose \<Rightarrow> 64 word" where
  "rose_id (Rose a tok i ts) = i"

text \<open>Every node of the tree has a text, as \<open>AddChild\<close> asserts of the nodes it inserts.\<close>

fun has_text :: "rose \<Rightarrow> bool" where
  "has_text (Rose a tok i ts) = (txt tok \<noteq> None \<and> list_all has_text ts)"

text \<open>
  The export as the specification words it: the node records of the tree in pre-order
  (a node, then its subtrees from left to right); the edge records in pre-order, a node
  giving one edge to each of its children, in order, before its subtrees give theirs;
  and the document with its fixed header and footer.
\<close>

definition node_record :: "(TokenType \<Rightarrow> string) \<Rightarrow> Token \<Rightarrow> 64 word \<Rightarrow> dot_line" where
  "node_record tn tok i =
     NodeRec i (CellBordersFormat (ttype tok)) (CheckIfRuleName (parser_type tok))
       (case txt tok of None \<Rightarrow> [] | Some x \<Rightarrow> x)
       (if txt tok = Some (tn (ttype tok)) then [] else tn (ttype tok))"

fun node_records :: "(TokenType \<Rightarrow> string) \<Rightarrow> rose \<Rightarrow> dot_line list" where
  "node_records tn (Rose a tok i ts) = node_record tn tok i # concat (map (node_records tn) ts)"

text \<open>The token and the id of every node of a tree, in pre-order.\<close>

fun rose_nodes :: "rose \<Rightarrow> (Token \<times> 64 word) list" where
  "rose_nodes (Rose a tk i ts) = (tk, i) # concat (map rose_nodes ts)"

fun edge_records :: "rose \<Rightarrow> dot_line list" where
  "edge_records (Rose a tok i ts) =
     map (\<lambda>T. Edge i (rose_id T)) ts @ concat (map edge_records ts)"

definition document :: "(TokenType \<Rightarrow> string) \<Rightarrow> rose \<Rightarrow> dot_file" where
  "document tn T = [Header, Density] @ node_records tn T @ [Blank] @ edge_records T @ [Footer]"

text \<open>Two trees that share the node 1: the cursor of tree 100 is the leaf 3, the last
  child of node 1; node 9 is detached.\<close>

definition st_two :: state where
  "st_two =
     \<lparr>nodes = [1 \<mapsto> inner 1 ''+'' 0 [2, 3], 2 \<mapsto> inner 2 ''a'' 1 [4],
               3 \<mapsto> inner 3 ''b'' 1 [5], 4 \<mapsto> (leaf 4 ''x'')\<lparr>parent := 2\<rparr>,
               5 \<mapsto> (leaf 5 ''y'')\<lparr>parent := 3\<rparr>, 9 \<mapsto> leaf 9 ''*''],
      trees = [100 \<mapsto> \<lparr>root = 1, current = 3, size_tree = 6\<rparr>]\<rparr>"

text \<open>
  Reachability through child pointers, and the nodes that some children array of the
  store points to.
\<close>

inductive reach :: "state \<Rightarrow> addr \<Rightarrow> addr \<Rightarrow> bool" for s :: state and r :: addr where
  reach_self: "reach s r r"
| reach_child:
    "reach s r p \<Longrightarrow> nodes s p = Some nd \<Longrightarrow> children nd = Some cs \<Longrightarrow> c \<in> set cs
       \<Longrightarrow> reach s r c"

definition pointed_to :: "state \<Rightarrow> addr \<Rightarrow> bool" where
  "pointed_to s a = (\<exists>p nd cs. nodes s p = Some nd \<and> children nd = Some cs \<and> a \<in> set cs)"

text \<open>The scenario of the specification: a root '+' with the two name leaves 'a' and 'b'.\<close>

definition st_plus :: state where
  "st_plus =
     \<lparr>nodes = [1 \<mapsto> \<lparr>token = \<lparr>ttype = TOKEN_OTHER 15, txt = Some ''+'',
                                parser_type = PRSR_OTHER 0\<rparr>,
                       children = Some [2, 3], parent = 0, id_node = 1\<rparr>,
               2 \<mapsto> (leaf 2 ''a'')\<lparr>parent := 1\<rparr>, 3 \<mapsto> (leaf 3 ''b'')\<lparr>parent := 1\<rparr>],
      trees = [100 \<mapsto> \<lparr>root = 1, current = 1, size_tree = 3\<rparr>]\<rparr>"

definition canonical :: "TokenType \<Rightarrow> string" where
  "canonical ty = (if ty = TOKEN_NAME then ''NAME'' else ''+'')"

subsection \<open>Readings of the store and a build sequence over two trees\<close>

text \<open>
  Two empty trees, \<open>A\<close> at 100 and \<open>B\<close> at 200, and six detached nodes as
  \<open>CreateNode\<close> leaves them.
\<close>

definition st_six :: state where
  "st_six =
     \<lparr>nodes = [1 \<mapsto> leaf 1 ''b'', 2 \<mapsto> leaf 2 ''n'', 3 \<mapsto> leaf 3 ''a'',
               4 \<mapsto> leaf 4 ''x'', 5 \<mapsto> leaf 5 ''y'', 6 \<mapsto> leaf 6 ''m''],
      trees = [100 \<mapsto> \<lparr>root = 0, current = 0, size_tree = 3\<rparr>,
               200 \<mapsto> \<lparr>root = 0, current = 0, size_tree = 3\<rparr>]\<rparr>"

text \<open>
  A build sequence on \<open>st_six\<close> in three parts, each call with a fresh node. First
  \<open>B\<close> gets the root 1 and the new parent 2 above it, and \<open>A\<close> gets the root 3; this
  reaches \<open>st_built\<close>. Then the children of \<open>B\<close>'s cursor are appended to \<open>A\<close>'s
  cursor, which reaches \<open>st_appended\<close>; the two cursors are now both node 3. Then node 4
  is added through \<open>A\<close> and node 5 through \<open>B\<close>, which reaches \<open>st_before\<close>.
  \<open>st_after\<close> is the store after \<open>InsertParent(A, 6)\<close> in \<open>st_before\<close>.
\<close>

definition build_run :: "fault + state" where
  "build_run =
     bind_res (AddChild st_six 200 1) (\<lambda>(s1, r1).
     bind_res (InsertParent s1 200 2) (\<lambda>s2.
     bind_res (AddChild s2 100 3) (\<lambda>(s3, r3). Inr s3)))"

definition st_built :: state where
  "st_built =
     \<lparr>nodes = [1 \<mapsto> (leaf 1 ''b'')\<lparr>parent := 2\<rparr>, 2 \<mapsto> inner 2 ''n'' 0 [1],
               3 \<mapsto> leaf 3 ''a'', 4 \<mapsto> leaf 4 ''x'', 5 \<mapsto> leaf 5 ''y'', 6 \<mapsto> leaf 6 ''m''],
      trees = [100 \<mapsto> \<lparr>root = 3, current = 3, size_tree = 3\<rparr>,
               200 \<mapsto> \<lparr>root = 2, current = 2, size_tree = 3\<rparr>]\<rparr>"

definition st_appended :: state where
  "st_appended =
     \<lparr>nodes = [1 \<mapsto> (leaf 1 ''b'')\<lparr>parent := 3\<rparr>, 2 \<mapsto> inner 2 ''n'' 0 [1],
               3 \<mapsto> inner 3 ''a'' 0 [1], 4 \<mapsto> leaf 4 ''x'', 5 \<mapsto> leaf 5 ''y'',
               6 \<mapsto> leaf 6 ''m''],
      trees = [100 \<mapsto> \<lparr>root = 3, current = 3, size_tree = 3\<rparr>,
               200 \<mapsto> \<lparr>root = 2, current = 3, size_tree = 3\<rparr>]\<rparr>"

definition alias_run :: "fault + state" where
  "alias_run =
     bind_res (AddChild st_appended 100 4) (\<lambda>(s5, r5).
     bind_res (AddChild s5 200 5) (\<lambda>(s6, r6). Inr s6))"

definition st_before :: state where
  "st_before =
     \<lparr>nodes = [1 \<mapsto> (leaf 1 ''b'')\<lparr>parent := 3\<rparr>, 2 \<mapsto> inner 2 ''n'' 0 [1],
               3 \<mapsto> inner 3 ''a'' 0 [1, 4, 5], 4 \<mapsto> (leaf 4 ''x'')\<lparr>parent := 3\<rparr>,
               5 \<mapsto> (leaf 5 ''y'')\<lparr>parent := 3\<rparr>, 6 \<mapsto> leaf 6 ''m''],
      trees = [100 \<mapsto> \<lparr>root = 3, current = 4, size_tree = 3\<rparr>,
               200 \<mapsto> \<lparr>root = 2, current = 5, size_tree = 3\<rparr>]\<rparr>"

definition st_after :: state where
  "st_after =
     \<lparr>nodes = [1 \<mapsto> (leaf 1 ''b'')\<lparr>parent := 3\<rparr>, 2 \<mapsto> inner 2 ''n'' 0 [1],
               3 \<mapsto> inner 3 ''a'' 0 [1, 4, 6], 4 \<mapsto> (leaf 4 ''x'')\<lparr>parent := 6\<rparr>,
               5 \<mapsto> (leaf 5 ''y'')\<lparr>parent := 3\<rparr>, 6 \<mapsto> inner 6 ''m'' 3 [4]],
      trees = [100 \<mapsto> \<lparr>root = 3, current = 6, size_tree = 3\<rparr>,
               200 \<mapsto> \<lparr>root = 2, current = 5, size_tree = 3\<rparr>]\<rparr>"

text \<open>The tree at 100 has the root 1 as cursor; the cursor of the tree at 200 is the leaf 2.\<close>

definition st_pair :: state where
  "st_pair =
     \<lparr>nodes = [1 \<mapsto> leaf 1 ''a'', 2 \<mapsto> leaf 2 ''b''],
      trees = [100 \<mapsto> \<lparr>root = 1, current = 1, size_tree = 1\<rparr>,
               200 \<mapsto> \<lparr>root = 2, current = 2, size_tree = 1\<rparr>]\<rparr>"

text \<open>
  Three readings of the store: the parent pointer of a node (null for no live node), the
  elements of its children array (none for a null array) and its token.
\<close>

definition par :: "state \<Rightarrow> addr \<Rightarrow> addr" where
  "par s N = (case nodes s N of None \<Rightarrow> 0 | Some nd \<Rightarrow> parent nd)"

definition kids :: "state \<Rightarrow> addr \<Rightarrow> addr list" where
  "kids s p =
     (case nodes s p of
        None \<Rightarrow> []
      | Some nd \<Rightarrow> (case children nd of None \<Rightarrow> [] | Some cs \<Rightarrow> cs))"

definition tok :: "state \<Rightarrow> addr \<Rightarrow> Token option" where
  "tok s p = map_option token (nodes s p)"

text \<open>A pointer to a live node with a text, as \<open>AddChild\<close> asserts of a new child.\<close>

definition texted :: "state \<Rightarrow> addr \<Rightarrow> bool" where
  "texted s p = (p \<noteq> 0 \<and> (case tok s p of None \<Rightarrow> False | Some tk \<Rightarrow> txt tk \<noteq> None))"

text \<open>
  The store after \<open>i\<close> rounds of the loop of \<open>AppendTree\<close> that started in \<open>s0\<close> with
  the cursor \<open>F\<close> of the first tree and the children \<open>cs\<close> of the cursor of the second:
  \<open>F\<close> has gained the first \<open>i\<close> of them, and the parent pointer is \<open>F\<close> for those and
  for the first \<open>i\<close> elements of \<open>F\<close>'s array, which the last statement of the body
  stamps.
\<close>

definition append_inv :: "state \<Rightarrow> addr \<Rightarrow> addr list \<Rightarrow> nat \<Rightarrow> state \<Rightarrow> bool" where
  "append_inv s0 F cs i s \<longleftrightarrow>
     trees s = trees s0 \<and> tok s = tok s0
     \<and> kids s = (kids s0)(F := kids s0 F @ take i cs)
     \<and> par s = (\<lambda>N. if N \<in> set (take i cs) \<union> set (take i (kids s0 F @ cs)) then F
                     else par s0 N)"

definition cursor :: "state \<Rightarrow> addr \<Rightarrow> addr" where
  "cursor s t = (case trees s t of None \<Rightarrow> 0 | Some tr \<Rightarrow> current tr)"

section \<open>Basic facts about the store\<close>

lemma bind_res_simps [simp]:
  "bind_res (Inl e) f = Inl e"
  "bind_res (Inr x) f = f x"
  by (simp_all add: bind_res_def)

lemma node_at_Inr: "node_at s p = Inr n \<longleftrightarrow> p \<noteq> 0 \<and> nodes s p = Some n"
  by (simp add: node_at_def split: option.splits)

lemma tree_at_Inr: "tree_at s t = Inr tr \<longleftrightarrow> t \<noteq> 0 \<and> trees s t = Some tr"
  by (simp add: tree_at_def split: option.splits)

lemma node_at_live [simp]: "p \<noteq> 0 \<Longrightarrow> nodes s p = Some n \<Longrightarrow> node_at s p = Inr n"
  by (simp add: node_at_def)

lemma tree_at_live [simp]: "t \<noteq> 0 \<Longrightarrow> trees s t = Some tr \<Longrightarrow> tree_at s t = Inr tr"
  by (simp add: tree_at_def)

lemma node_at_null [simp]: "node_at s 0 = Inl NullDeref"
  by (simp add: node_at_def)

lemma tree_at_null [simp]: "tree_at s 0 = Inl NullDeref"
  by (simp add: tree_at_def)

lemma set_node_simps [simp]:
  "nodes (set_node s p n) = (nodes s)(p \<mapsto> n)"
  "trees (set_node s p n) = trees s"
  by (simp_all add: set_node_def)

lemma set_tree_simps [simp]:
  "trees (set_tree s t tr) = (trees s)(t \<mapsto> tr)"
  "nodes (set_tree s t tr) = nodes s"
  by (simp_all add: set_tree_def)

lemma node_at_set_tree [simp]: "node_at (set_tree s t tr) p = node_at s p"
  by (simp add: node_at_def)

lemma tree_at_set_node [simp]: "tree_at (set_node s p n) t = tree_at s t"
  by (simp add: tree_at_def)

lemma node_at_set_node:
  "node_at (set_node s p n) q =
     (if q = 0 then Inl NullDeref else if q = p then Inr n else node_at s q)"
  by (simp add: node_at_def)

lemma tree_at_set_tree:
  "tree_at (set_tree s t tr) u =
     (if u = 0 then Inl NullDeref else if u = t then Inr tr else tree_at s u)"
  by (simp add: tree_at_def)

lemma reach_pointed_to: "reach s r c \<Longrightarrow> c = r \<or> pointed_to s c"
  by (induction rule: reach.induct) (auto simp: pointed_to_def)

section \<open>The subtree below a node depends on the cells of its nodes only\<close>

text \<open>
  A store that agrees with another on the token, the children and the id of every node
  of a subtree holds the same subtree there; parent pointers play no part.
\<close>

lemma subtree_frame:
  "subtree d s a = Some T \<Longrightarrow>
     (\<And>b. b \<in> addrs T \<Longrightarrow>
        map_option (\<lambda>nd. (token nd, children nd, id_node nd)) (nodes s' b)
          = map_option (\<lambda>nd. (token nd, children nd, id_node nd)) (nodes s b)) \<Longrightarrow>
     subtree d s' a = Some T"
  and subtrees_frame:
  "subtrees k s cs = Some ts \<Longrightarrow>
     (\<And>b. b \<in> (\<Union>T \<in> set ts. addrs T) \<Longrightarrow>
        map_option (\<lambda>nd. (token nd, children nd, id_node nd)) (nodes s' b)
          = map_option (\<lambda>nd. (token nd, children nd, id_node nd)) (nodes s b)) \<Longrightarrow>
     subtrees k s' cs = Some ts"
proof (induction d s a and k s cs arbitrary: T and ts rule: subtree_subtrees.induct)
  case (1 s a)
  then show ?case by simp
next
  case (2 k s a)
  from "2.prems"(1) obtain nd where nd: "node_at s a = Inr nd"
    by (auto split: sum.splits)
  then have a0: "a \<noteq> 0" and live: "nodes s a = Some nd" by (simp_all add: node_at_Inr)
  from "2.prems"(1) nd have "a \<in> addrs T"
    by (auto split: option.splits)
  from "2.prems"(2) [OF this] live obtain nd' where live': "nodes s' a = Some nd'"
    and same: "token nd' = token nd" "children nd' = children nd" "id_node nd' = id_node nd"
    by (auto simp: map_option_case split: option.splits)
  show ?case
  proof (cases "children nd")
    case None
    with "2.prems"(1) nd a0 live' same show ?thesis by simp
  next
    case (Some cs)
    with "2.prems"(1) nd obtain ts where ts: "subtrees k s cs = Some ts"
      and T: "T = Rose a (token nd) (id_node nd) ts"
      by (auto split: option.splits)
    have "subtrees k s' cs = Some ts"
      using "2.IH" [OF nd Some ts] "2.prems"(2) T by simp
    with Some a0 live' same T show ?thesis by simp
  qed
next
  case (3 k s)
  then show ?case by simp
next
  case (4 k s c cs)
  from "4.prems"(1) obtain T' ts' where T': "subtree k s c = Some T'"
    and ts': "subtrees k s cs = Some ts'" and ts: "ts = T' # ts'"
    by (auto split: option.splits)
  have "subtree k s' c = Some T'"
    using "4.IH"(1) [OF T'] "4.prems"(2) ts by simp
  moreover have "subtrees k s' cs = Some ts'"
    using "4.IH"(2) [OF T' ts'] "4.prems"(2) ts by simp
  ultimately show ?case using ts by simp
qed

text \<open>More fuel reads the same subtree.\<close>

lemma subtree_Suc:
  "subtree d s a = Some T \<Longrightarrow> subtree (Suc d) s a = Some T"
  and subtrees_Suc:
  "subtrees k s cs = Some ts \<Longrightarrow> subtrees (Suc k) s cs = Some ts"
proof (induction d s a and k s cs arbitrary: T and ts rule: subtree_subtrees.induct)
  case (1 s a)
  then show ?case by simp
next
  case (2 k s a)
  from "2.prems" obtain nd where nd: "node_at s a = Inr nd"
    by (auto split: sum.splits)
  show ?case
  proof (cases "children nd")
    case None
    with "2.prems" nd show ?thesis by simp
  next
    case (Some cs)
    with "2.prems" nd obtain ts where ts: "subtrees k s cs = Some ts"
      and T: "T = Rose a (token nd) (id_node nd) ts"
      by (auto split: option.splits)
    from "2.IH" [OF nd Some ts] nd Some T show ?thesis by simp
  qed
next
  case (3 k s)
  then show ?case by simp
next
  case (4 k s c cs)
  from "4.prems" obtain T' ts' where T': "subtree k s c = Some T'"
    and ts': "subtrees k s cs = Some ts'" and ts: "ts = T' # ts'"
    by (auto split: option.splits)
  from "4.IH"(1) [OF T'] "4.IH"(2) [OF T' ts'] ts show ?case by simp
qed

lemma subtree_mono: "subtree d s a = Some T \<Longrightarrow> d \<le> fuel \<Longrightarrow> subtree fuel s a = Some T"
proof (induction fuel)
  case 0
  then show ?case by simp
next
  case (Suc fuel)
  show ?case
  proof (cases "d = Suc fuel")
    case True
    with Suc.prems show ?thesis by simp
  next
    case False
    with Suc.prems have "d \<le> fuel" by simp
    from Suc.IH [OF Suc.prems(1) this] show ?thesis by (rule subtree_Suc)
  qed
qed

section \<open>Classification tables and labels\<close>

text \<open>
  C7. Both classification functions are total with an explicit default. The border of a
  token type is "none" for the six punctuation and structural types that
  \<open>CellBordersFormat\<close> lists, "rectangle" for the identifier type and "diamond" for every
  other type. The colour of a syntactic role is one of four pairwise different colours
  for the four named roles and the single colour "black", different from those four, for
  every other role.
\<close>

theorem classification_tables:
  "CellBordersFormat t =
     (if t \<in> {TOKEN_COLON, TOKEN_SEMICOLON, TOKEN_DOUBLE_QUOTE, TOKEN_SINGLE_QUOTE,
               TOKEN_EOF, TOKEN_EQ} then ''none''
      else if t = TOKEN_NAME then ''rectangle''
      else ''diamond'')
   \<and> CheckIfRuleName r =
     (if r = VAR_NAME then ''yellow''
      else if r = RULE_NAME then ''cyan''
      else if r = RULE_NAME_REFERENCE then ''red''
      else if r = VAR_NAME_REFERENCE then ''green''
      else ''black'')
   \<and> distinct (map CheckIfRuleName
        [VAR_NAME, RULE_NAME, RULE_NAME_REFERENCE, VAR_NAME_REFERENCE, PRSR_OTHER k])"
proof (intro conjI)
  show "CellBordersFormat t =
     (if t \<in> {TOKEN_COLON, TOKEN_SEMICOLON, TOKEN_DOUBLE_QUOTE, TOKEN_SINGLE_QUOTE,
               TOKEN_EOF, TOKEN_EQ} then ''none''
      else if t = TOKEN_NAME then ''rectangle''
      else ''diamond'')"
    by (cases t) simp_all
  show "CheckIfRuleName r =
     (if r = VAR_NAME then ''yellow''
      else if r = RULE_NAME then ''cyan''
      else if r = RULE_NAME_REFERENCE then ''red''
      else if r = VAR_NAME_REFERENCE then ''green''
      else ''black'')"
    by (cases r) simp_all
  show "distinct (map CheckIfRuleName
        [VAR_NAME, RULE_NAME, RULE_NAME_REFERENCE, VAR_NAME_REFERENCE, PRSR_OTHER k])"
    by simp
qed

section \<open>AddChild and Parent\<close>

text \<open>The two branches of a successful \<open>AddChild\<close>, and their inversion.\<close>

lemma AddChild_assert:
  "t = 0 \<or> new_child = 0 \<or> (\<exists>nc. nodes s new_child = Some nc \<and> txt (token nc) = None)
     \<Longrightarrow> AddChild s t new_child = Inl AssertFail"
  by (auto simp: AddChild_def)

lemma AddChild_root:
  assumes "t \<noteq> 0" "new_child \<noteq> 0" "nodes s new_child = Some nc" "txt (token nc) \<noteq> None"
    and "trees s t = Some tr" "current tr = 0"
  shows "AddChild s t new_child =
           Inr (set_tree s t (tr\<lparr>root := new_child, current := new_child\<rparr>), new_child)"
  using assms by (simp add: AddChild_def)

lemma AddChild_append:
  assumes "t \<noteq> 0" "new_child \<noteq> 0" "nodes s new_child = Some nc" "txt (token nc) \<noteq> None"
    and "trees s t = Some tr" "current tr \<noteq> 0" "nodes s (current tr) = Some cur"
  shows "AddChild s t new_child =
           (let cs = (case children cur of None \<Rightarrow> [] | Some old \<Rightarrow> old) @ [new_child];
                s1 = set_node s (current tr) (cur\<lparr>children := Some cs\<rparr>);
                cn = (if new_child = current tr then cur\<lparr>children := Some cs\<rparr> else nc)
            in Inr (set_tree (set_node s1 new_child (cn\<lparr>parent := current tr\<rparr>)) t
                      (tr\<lparr>current := new_child\<rparr>), new_child))"
  using assms by (simp add: AddChild_def GetChild_def Let_def)

lemma AddChild_Inr_cases:
  assumes ok: "AddChild s t new_child = Inr (s', r)"
  obtains (rooting) nc tr where
      "t \<noteq> 0" "new_child \<noteq> 0" "nodes s new_child = Some nc" "txt (token nc) \<noteq> None"
      "trees s t = Some tr" "current tr = 0"
    | (appending) nc tr cur where
      "t \<noteq> 0" "new_child \<noteq> 0" "nodes s new_child = Some nc" "txt (token nc) \<noteq> None"
      "trees s t = Some tr" "current tr \<noteq> 0" "nodes s (current tr) = Some cur"
proof -
  from ok have t: "t \<noteq> 0" by (auto simp: AddChild_def)
  from ok t have c: "new_child \<noteq> 0" by (auto simp: AddChild_def)
  from ok t c obtain nc where nc: "node_at s new_child = Inr nc"
    by (cases "node_at s new_child") (simp_all add: AddChild_def)
  from ok t c nc have x: "txt (token nc) \<noteq> None"
    by (auto simp: AddChild_def split: if_splits)
  from ok t c nc x obtain tr where tr: "tree_at s t = Inr tr"
    by (cases "tree_at s t") (simp_all add: AddChild_def)
  show thesis
  proof (cases "current tr = 0")
    case True
    with t c nc x tr show thesis
      by (intro rooting [of nc tr]) (simp_all add: node_at_Inr tree_at_Inr)
  next
    case False
    with ok t c nc x tr obtain cur where "node_at s (current tr) = Inr cur"
      by (cases "node_at s (current tr)") (simp_all add: AddChild_def)
    with False t c nc x tr show thesis
      by (intro appending [of nc tr cur]) (simp_all add: node_at_Inr tree_at_Inr)
  qed
qed

lemma AddChild_result:
  assumes "AddChild s t new_child = Inr (s', r)"
  shows "r = new_child \<and> new_child \<noteq> 0 \<and> t \<noteq> 0
         \<and> (\<exists>tr. trees s t = Some tr
               \<and> trees s' = (trees s)(t \<mapsto> tr\<lparr>root := (if current tr = 0 then new_child else root tr),
                                                 current := new_child\<rparr>))"
  using assms
proof (cases rule: AddChild_Inr_cases)
  case (rooting nc tr)
  with assms show ?thesis by (auto simp add: AddChild_root)
next
  case (appending nc tr cur)
  with assms show ?thesis by (auto simp add: AddChild_append Let_def)
qed

lemma AddChild_no_assert:
  assumes "t \<noteq> 0" "new_child \<noteq> 0" "nodes s new_child = Some nc" "txt (token nc) \<noteq> None"
  shows "AddChild s t new_child \<noteq> Inl AssertFail"
proof (cases "trees s t")
  case None
  with assms show ?thesis by (simp add: AddChild_def tree_at_def)
next
  case (Some tr)
  show ?thesis
  proof (cases "current tr = 0")
    case True
    with assms Some show ?thesis by (simp add: AddChild_root)
  next
    case False
    show ?thesis
    proof (cases "nodes s (current tr)")
      case None
      with assms Some False show ?thesis by (simp add: AddChild_def node_at_def)
    next
      case (Some cur)
      with assms \<open>trees s t = Some tr\<close> False show ?thesis
        by (simp add: AddChild_append Let_def)
    qed
  qed
qed

text \<open>
  C6. \<open>AddChild\<close> stops at a failed assertion whenever the tree pointer is null, the
  child pointer is null or the child's token has no text (a null \<open>txt\<close>). When the three
  conditions are all false no assertion fails, and on a tree cell whose cursor is null or
  a live node the call completes and returns the new node.
\<close>

theorem AddChild_preconditions:
  "((t = 0 \<or> new_child = 0 \<or> (\<exists>nc. nodes s new_child = Some nc \<and> txt (token nc) = None))
       \<longrightarrow> AddChild s t new_child = Inl AssertFail)
   \<and> (t \<noteq> 0 \<and> new_child \<noteq> 0 \<and> (\<exists>nc. nodes s new_child = Some nc \<and> txt (token nc) \<noteq> None)
       \<longrightarrow> AddChild s t new_child \<noteq> Inl AssertFail)
   \<and> (t \<noteq> 0 \<and> new_child \<noteq> 0 \<and> (\<exists>nc. nodes s new_child = Some nc \<and> txt (token nc) \<noteq> None)
        \<and> (\<exists>tr. trees s t = Some tr \<and> (current tr = 0 \<or> current tr \<in> dom (nodes s)))
       \<longrightarrow> (\<exists>s'. AddChild s t new_child = Inr (s', new_child)))"
proof (intro conjI impI)
  assume "t = 0 \<or> new_child = 0 \<or> (\<exists>nc. nodes s new_child = Some nc \<and> txt (token nc) = None)"
  then show "AddChild s t new_child = Inl AssertFail"
    by (rule AddChild_assert)
next
  assume "t \<noteq> 0 \<and> new_child \<noteq> 0 \<and> (\<exists>nc. nodes s new_child = Some nc \<and> txt (token nc) \<noteq> None)"
  then show "AddChild s t new_child \<noteq> Inl AssertFail"
    using AddChild_no_assert by blast
next
  assume a: "t \<noteq> 0 \<and> new_child \<noteq> 0 \<and> (\<exists>nc. nodes s new_child = Some nc \<and> txt (token nc) \<noteq> None)
        \<and> (\<exists>tr. trees s t = Some tr \<and> (current tr = 0 \<or> current tr \<in> dom (nodes s)))"
  then obtain nc tr where n: "nodes s new_child = Some nc" "txt (token nc) \<noteq> None"
    and t: "trees s t = Some tr" "current tr = 0 \<or> current tr \<in> dom (nodes s)"
    by blast
  show "\<exists>s'. AddChild s t new_child = Inr (s', new_child)"
  proof (cases "current tr = 0")
    case True
    with a n t show ?thesis by (simp add: AddChild_root)
  next
    case False
    with t obtain cur where "nodes s (current tr) = Some cur" by auto
    with a n t False show ?thesis by (simp add: AddChild_append Let_def)
  qed
qed

theorem AddChild_preconditions_witness:
  "AddChild st_root 0 2 = Inl AssertFail
   \<and> AddChild st_root 100 0 = Inl AssertFail
   \<and> AddChild (set_node st_root 2 ((leaf 2 [])\<lparr>token := (token (leaf 2 []))\<lparr>txt := None\<rparr>\<rparr>)) 100 2
       = Inl AssertFail
   \<and> AddChild st_root 100 2 \<noteq> Inl AssertFail
   \<and> (\<exists>s'. AddChild st_root 100 2 = Inr (s', 2))"
proof -
  let ?bad = "set_node st_root 2 ((leaf 2 [])\<lparr>token := (token (leaf 2 []))\<lparr>txt := None\<rparr>\<rparr>)"
  have "AddChild st_root 0 2 = Inl AssertFail"
    using AddChild_preconditions [of 0 2 st_root] by simp
  moreover have "AddChild st_root 100 0 = Inl AssertFail"
    using AddChild_preconditions [of 100 0 st_root] by simp
  moreover have "AddChild ?bad 100 2 = Inl AssertFail"
    using AddChild_preconditions [of 100 2 ?bad] by (simp add: leaf_def)
  moreover have "AddChild st_root 100 2 \<noteq> Inl AssertFail"
    using AddChild_preconditions [of 100 2 st_root] by (simp add: st_root_def leaf_def)
  moreover have "\<exists>s'. AddChild st_root 100 2 = Inr (s', 2)"
    using AddChild_preconditions [of 100 2 st_root] by (simp add: st_root_def leaf_def)
  ultimately show ?thesis by blast
qed

text \<open>A later \<open>AddChild\<close> finds a cursor that is not null and leaves the root alone.\<close>

lemma AddChild_seq_root:
  "trees s t = Some tr \<Longrightarrow> current tr \<noteq> 0 \<Longrightarrow> AddChild_seq s t cs = Inr s'
     \<Longrightarrow> \<exists>tr'. trees s' t = Some tr' \<and> root tr' = root tr \<and> current tr' \<noteq> 0"
proof (induction cs arbitrary: s tr)
  case Nil
  then show ?case by simp
next
  case (Cons c cs)
  from Cons.prems(3) obtain s1 r where s1: "AddChild s t c = Inr (s1, r)"
    and rest: "AddChild_seq s1 t cs = Inr s'"
    by (auto split: sum.splits)
  from AddChild_result [OF s1] Cons.prems(1,2)
  have "trees s1 t = Some (tr\<lparr>root := root tr, current := c\<rparr>)" and "c \<noteq> 0"
    by auto
  with Cons.IH [of s1 "tr\<lparr>root := root tr, current := c\<rparr>"] rest show ?case
    by simp
qed

lemma AddChild_seq_append:
  "AddChild_seq s t (xs @ ys) =
     (case AddChild_seq s t xs of Inl e \<Rightarrow> Inl e | Inr s1 \<Rightarrow> AddChild_seq s1 t ys)"
  by (induction xs arbitrary: s) (auto split: sum.splits)

text \<open>
  C4 (as the code has it). \<open>AddChild\<close> tests the cursor, not the root. A call that
  returns makes its node the cursor, and it makes it the root exactly when the cursor was
  null at the call: so the first call on an empty tree (null root and cursor) makes the
  new node both root and cursor, and a later call leaves the root unchanged whenever the
  cursor is not null, as it is throughout a run of \<open>AddChild\<close> calls, where the root
  stays the first node.
\<close>

theorem AddChild_rooting:
  "(trees s t = Some tr \<and> AddChild s t c = Inr (s', r)
      \<longrightarrow> r = c
          \<and> trees s' t = Some (tr\<lparr>root := (if current tr = 0 then c else root tr),
                                    current := c\<rparr>))
   \<and> (trees s t = Some tr \<and> current tr = 0 \<and> AddChild_seq s t (c # cs) = Inr s''
      \<longrightarrow> (\<forall>k \<le> length cs. \<exists>sk trk. AddChild_seq s t (c # take k cs) = Inr sk
               \<and> trees sk t = Some trk \<and> root trk = c))"
proof (intro conjI impI)
  assume "trees s t = Some tr \<and> AddChild s t c = Inr (s', r)"
  then have a: "trees s t = Some tr" "AddChild s t c = Inr (s', r)" by simp_all
  from AddChild_result [OF a(2)] a(1)
  show "r = c"
    and "trees s' t = Some (tr\<lparr>root := (if current tr = 0 then c else root tr),
                                current := c\<rparr>)"
    by auto
next
  assume "trees s t = Some tr \<and> current tr = 0 \<and> AddChild_seq s t (c # cs) = Inr s''"
  then have a: "trees s t = Some tr" "current tr = 0" "AddChild_seq s t (c # cs) = Inr s''"
    by simp_all
  from a(3) obtain s1 r1 where s1: "AddChild s t c = Inr (s1, r1)"
    and rest: "AddChild_seq s1 t cs = Inr s''"
    by (auto split: sum.splits)
  from AddChild_result [OF s1] a(1,2)
  have c: "c \<noteq> 0" and t1: "trees s1 t = Some (tr\<lparr>root := c, current := c\<rparr>)"
    by auto
  show "\<forall>k \<le> length cs. \<exists>sk trk. AddChild_seq s t (c # take k cs) = Inr sk
               \<and> trees sk t = Some trk \<and> root trk = c"
  proof (intro allI impI)
    fix k assume "k \<le> length cs"
    have "AddChild_seq s1 t (take k cs @ drop k cs) = Inr s''"
      using rest by simp
    then obtain sk where sk: "AddChild_seq s1 t (take k cs) = Inr sk"
      unfolding AddChild_seq_append by (auto split: sum.splits)
    from AddChild_seq_root [OF t1 _ sk] c
    obtain trk where "trees sk t = Some trk" "root trk = c" by auto
    with s1 sk show "\<exists>sk trk. AddChild_seq s t (c # take k cs) = Inr sk
               \<and> trees sk t = Some trk \<and> root trk = c"
      by simp
  qed
qed

theorem AddChild_rooting_witness:
  "(\<exists>s'. AddChild st_empty 100 1 = Inr (s', 1)
       \<and> trees s' 100 = Some \<lparr>root = 1, current = 1, size_tree = 3\<rparr>)
   \<and> (\<exists>s'. AddChild st_root 100 2 = Inr (s', 2)
       \<and> trees s' 100 = Some \<lparr>root = 1, current = 2, size_tree = 2\<rparr>)
   \<and> (\<exists>sk trk. AddChild_seq st_empty 100 [1, 2, 3] = Inr sk
         \<and> trees sk 100 = Some trk \<and> root trk = 1)"
proof (intro conjI)
  have "\<exists>s'. AddChild st_empty 100 1 = Inr (s', 1)"
    by (simp add: st_empty_def leaf_def AddChild_def node_at_def tree_at_def)
  then obtain s' where run: "AddChild st_empty 100 1 = Inr (s', 1)" by blast
  have "trees st_empty 100 = Some \<lparr>root = 0, current = 0, size_tree = 3\<rparr>"
    by (simp add: st_empty_def)
  with AddChild_rooting [where s = st_empty and t = 100 and tr = "\<lparr>root = 0, current = 0, size_tree = 3\<rparr>" and c = 1
         and s' = s' and r = 1, THEN conjunct1] run
  have "trees s' 100 = Some \<lparr>root = 1, current = 1, size_tree = 3\<rparr>" by simp
  with run show "\<exists>s'. AddChild st_empty 100 1 = Inr (s', 1)
       \<and> trees s' 100 = Some \<lparr>root = 1, current = 1, size_tree = 3\<rparr>"
    by blast
next
  have "\<exists>s'. AddChild st_root 100 2 = Inr (s', 2)"
    by (simp add: st_root_def leaf_def AddChild_def GetChild_def Let_def node_at_def
          tree_at_def)
  then obtain s' where run: "AddChild st_root 100 2 = Inr (s', 2)" by blast
  have "trees st_root 100 = Some \<lparr>root = 1, current = 1, size_tree = 2\<rparr>"
    by (simp add: st_root_def)
  with AddChild_rooting [where s = st_root and t = 100 and tr = "\<lparr>root = 1, current = 1, size_tree = 2\<rparr>" and c = 2
         and s' = s' and r = 2, THEN conjunct1] run
  have "trees s' 100 = Some \<lparr>root = 1, current = 2, size_tree = 2\<rparr>" by simp
  with run show "\<exists>s'. AddChild st_root 100 2 = Inr (s', 2)
       \<and> trees s' 100 = Some \<lparr>root = 1, current = 2, size_tree = 2\<rparr>"
    by blast
next
  have h1: "trees st_empty 100 = Some \<lparr>root = 0, current = 0, size_tree = 3\<rparr>"
    by (simp add: st_empty_def)
  have "\<exists>s'. AddChild_seq st_empty 100 [1, 2, 3] = Inr s'"
    by (simp add: st_empty_def leaf_def AddChild_def GetChild_def Let_def node_at_def
          tree_at_def)
  then obtain s' where h4: "AddChild_seq st_empty 100 (1 # [2, 3]) = Inr s'" by blast
  from AddChild_rooting [where s = st_empty and t = 100 and tr = "\<lparr>root = 0, current = 0, size_tree = 3\<rparr>" and c = 1
         and cs = "[2, 3]" and s'' = s', THEN conjunct2] h1 h4
  have "\<forall>k \<le> length [2, 3 :: addr]. \<exists>sk trk.
          AddChild_seq st_empty 100 (1 # take k [2, 3]) = Inr sk
          \<and> trees sk 100 = Some trk \<and> root trk = 1"
    by simp
  from this [rule_format, of 2]
  show "\<exists>sk trk. AddChild_seq st_empty 100 [1, 2, 3] = Inr sk
         \<and> trees sk 100 = Some trk \<and> root trk = 1"
    by simp
qed

text \<open>
  A later \<open>AddChild\<close> that changes the root. On the tree that holds the single node 1,
  \<open>Parent\<close> leaves the cursor null (the root has no parent); the next \<open>AddChild\<close> finds
  a null cursor and makes node 2 the root in place of node 1.
\<close>

theorem AddChild_after_Parent_counterexample:
  "AddChild st_empty 100 1
     = Inr (set_tree st_empty 100 \<lparr>root = 1, current = 1, size_tree = 3\<rparr>, 1)
   \<and> Parent (set_tree st_empty 100 \<lparr>root = 1, current = 1, size_tree = 3\<rparr>) 100
     = Inr (set_tree st_empty 100 \<lparr>root = 1, current = 0, size_tree = 3\<rparr>)
   \<and> AddChild (set_tree st_empty 100 \<lparr>root = 1, current = 0, size_tree = 3\<rparr>) 100 2
     = Inr (set_tree st_empty 100 \<lparr>root = 2, current = 2, size_tree = 3\<rparr>, 2)"
  by (simp add: AddChild_def Parent_def st_empty_def leaf_def node_at_def tree_at_def
        set_tree_def)

text \<open>
  C5 (as the code has it). \<open>Parent\<close> holds no check. On a live tree cell with a live
  cursor it sets the cursor to the parent pointer of the old cursor and returns, also
  when the old cursor is the root: its parent pointer is null, and the cursor becomes
  null. No call of \<open>Parent\<close> ends in a failed assertion.
\<close>

theorem Parent_ascent:
  assumes "t \<noteq> 0" "trees s t = Some tr" "current tr \<noteq> 0" "nodes s (current tr) = Some cur"
  shows "Parent s t = Inr (set_tree s t (tr\<lparr>current := parent cur\<rparr>))
         \<and> Parent s t \<noteq> Inl AssertFail"
  using assms by (simp add: Parent_def)

theorem Parent_ascent_witness:
  "Parent st_root 100 = Inr (set_tree st_root 100 \<lparr>root = 1, current = 0, size_tree = 2\<rparr>)"
proof -
  let ?tr = "\<lparr>root = 1, current = 1, size_tree = 2\<rparr>"
  have h1: "(100 :: addr) \<noteq> 0" by simp
  have h2: "trees st_root 100 = Some ?tr" by (simp add: st_root_def)
  have h3: "current ?tr \<noteq> 0" by simp
  have h4: "nodes st_root (current ?tr) = Some (leaf 1 ''a'')" by (simp add: st_root_def)
  from Parent_ascent [OF h1 h2 h3 h4] show ?thesis by (simp add: leaf_def)
qed

text \<open>
  The cursor of \<open>st_root\<close> is the root. \<open>Parent\<close> is not rejected there: it returns
  with the cursor set to null, and the next \<open>AddChild\<close> replaces the root.
\<close>

theorem Parent_at_root_counterexample:
  "Parent st_root 100 =
     Inr (st_root\<lparr>trees := [100 \<mapsto> \<lparr>root = 1, current = 0, size_tree = 2\<rparr>]\<rparr>)"
  by (simp add: Parent_def st_root_def leaf_def set_tree_def)

section \<open>InsertParent\<close>

text \<open>The store after \<open>InsertParent\<close>, for a cursor without and with a parent.\<close>

lemma InsertParent_no_parent:
  assumes "t \<noteq> 0" "trees s t = Some tr" "current tr \<noteq> 0"
    and "nodes s (current tr) = Some xn" "txt (token xn) \<noteq> None"
    and "n \<noteq> 0" "nodes s n = Some nn" "n \<noteq> current tr"
    and "parent xn = 0"
  shows "InsertParent s t n =
           Inr (set_tree
                 (set_node
                   (set_node s n
                      (nn\<lparr>children := Some ((case children nn of None \<Rightarrow> [] | Some old \<Rightarrow> old)
                                               @ [current tr])\<rparr>))
                   (current tr) (xn\<lparr>parent := n\<rparr>))
                 t (tr\<lparr>current := n,
                        root := (if current tr = root tr then n else root tr)\<rparr>))"
  using assms
  by (simp add: InsertParent_def Let_def AddChild_append Parent_def node_at_set_node
        tree_at_set_tree)

lemma InsertParent_with_parent:
  assumes "t \<noteq> 0" "trees s t = Some tr" "current tr \<noteq> 0"
    and "nodes s (current tr) = Some xn" "txt (token xn) \<noteq> None"
    and "n \<noteq> 0" "nodes s n = Some nn" "n \<noteq> current tr"
    and "parent xn \<noteq> 0" "parent xn \<noteq> n" "parent xn \<noteq> current tr"
    and "nodes s (parent xn) = Some pn" "children pn = Some cs" "cs \<noteq> []"
  shows "InsertParent s t n =
           Inr (set_tree
                 (set_node
                   (set_node
                     (set_node s (parent xn) (pn\<lparr>children := Some (cs[length cs - 1 := n])\<rparr>))
                     n (nn\<lparr>parent := parent xn,
                           children := Some ((case children nn of None \<Rightarrow> [] | Some old \<Rightarrow> old)
                                               @ [current tr])\<rparr>))
                   (current tr) (xn\<lparr>parent := n\<rparr>))
                 t (tr\<lparr>current := n,
                        root := (if current tr = root tr then n else root tr)\<rparr>))"
  using assms
  by (simp add: InsertParent_def Let_def AddChild_append Parent_def node_at_set_node
        tree_at_set_tree)

text \<open>
  C2. Let the cursor of \<open>t\<close> be the node \<open>X\<close> with text, and \<open>n\<close> another live node.
  When \<open>X\<close> has a parent \<open>P\<close> (other than \<open>n\<close> and \<open>X\<close>), let \<open>X\<close> be the last of
  \<open>P\<close>'s children \<open>cs\<close>, which are pairwise different. Then \<open>InsertParent(t, n)\<close> puts
  \<open>n\<close> into the slot of \<open>P\<close>'s children that held \<open>X\<close>, the last one, so that \<open>X\<close> is
  no longer a child of \<open>P\<close>, and sets \<open>n\<close>'s parent to \<open>P\<close>; when \<open>X\<close> is the root,
  \<open>n\<close> becomes the root. In both cases \<open>X\<close> is the one child that \<open>n\<close> gains, \<open>X\<close>'s
  parent is \<open>n\<close>, the cursor is \<open>n\<close>, no other cell changes, and the subtree below \<open>X\<close>
  is the same as before.
\<close>

theorem InsertParent_correct:
  assumes t: "t \<noteq> 0" "trees s t = Some tr"
    and X: "current tr \<noteq> 0" "nodes s (current tr) = Some xn" "txt (token xn) \<noteq> None"
    and n: "n \<noteq> 0" "nodes s n = Some nn" "n \<noteq> current tr"
    and P: "parent xn = 0 \<or>
            (parent xn \<noteq> n \<and> parent xn \<noteq> current tr \<and> nodes s (parent xn) = Some pn
               \<and> children pn = Some cs \<and> cs \<noteq> [] \<and> last cs = current tr \<and> distinct cs)"
  shows "\<exists>s'. InsertParent s t n = Inr s'
           \<and> trees s' = (trees s)(t \<mapsto> tr\<lparr>current := n,
                                            root := (if current tr = root tr then n else root tr)\<rparr>)
           \<and> (parent xn \<noteq> 0 \<longrightarrow>
                cs ! (length cs - 1) = current tr
                \<and> nodes s' (parent xn) = Some (pn\<lparr>children := Some (cs[length cs - 1 := n])\<rparr>)
                \<and> cs[length cs - 1 := n] = butlast cs @ [n]
                \<and> current tr \<notin> set (cs[length cs - 1 := n]))
           \<and> nodes s' n =
               Some (nn\<lparr>parent := (if parent xn = 0 then parent nn else parent xn),
                        children := Some ((case children nn of None \<Rightarrow> [] | Some old \<Rightarrow> old)
                                            @ [current tr])\<rparr>)
           \<and> nodes s' (current tr) = Some (xn\<lparr>parent := n\<rparr>)
           \<and> (\<forall>m. m \<noteq> n \<and> m \<noteq> current tr \<and> m \<noteq> parent xn \<longrightarrow> nodes s' m = nodes s m)
           \<and> (\<forall>d T. subtree d s (current tr) = Some T \<and> n \<notin> addrs T \<and> parent xn \<notin> addrs T
                 \<longrightarrow> subtree d s' (current tr) = Some T)"
proof (cases "parent xn = 0")
  case True
  let ?s' = "set_tree
               (set_node
                 (set_node s n
                    (nn\<lparr>children := Some ((case children nn of None \<Rightarrow> [] | Some old \<Rightarrow> old)
                                             @ [current tr])\<rparr>))
                 (current tr) (xn\<lparr>parent := n\<rparr>))
               t (tr\<lparr>current := n, root := (if current tr = root tr then n else root tr)\<rparr>)"
  have run: "InsertParent s t n = Inr ?s'"
    using t X n True by (rule InsertParent_no_parent)
  have sub: "subtree d ?s' (current tr) = Some T"
    if "subtree d s (current tr) = Some T" "n \<notin> addrs T" for d T
    using that(1)
  proof (rule subtree_frame)
    fix b assume "b \<in> addrs T"
    with that(2) have "b \<noteq> n" by auto
    then show "map_option (\<lambda>nd. (token nd, children nd, id_node nd)) (nodes ?s' b)
                 = map_option (\<lambda>nd. (token nd, children nd, id_node nd)) (nodes s b)"
      using X(2) by simp
  qed
  show ?thesis
    unfolding run using True n(3) sub by (intro exI [of _ ?s']) simp
next
  case False
  with P have P': "parent xn \<noteq> n" "parent xn \<noteq> current tr" "nodes s (parent xn) = Some pn"
    "children pn = Some cs" "cs \<noteq> []"
    and last: "last cs = current tr" "distinct cs"
    by simp_all
  let ?s' = "set_tree
               (set_node
                 (set_node
                   (set_node s (parent xn) (pn\<lparr>children := Some (cs[length cs - 1 := n])\<rparr>))
                   n (nn\<lparr>parent := parent xn,
                         children := Some ((case children nn of None \<Rightarrow> [] | Some old \<Rightarrow> old)
                                             @ [current tr])\<rparr>))
                 (current tr) (xn\<lparr>parent := n\<rparr>))
               t (tr\<lparr>current := n, root := (if current tr = root tr then n else root tr)\<rparr>)"
  have run: "InsertParent s t n = Inr ?s'"
    using t X n False P' by (rule InsertParent_with_parent)
  have slot: "cs[length cs - 1 := n] = butlast cs @ [n]"
    using P'(5) by (induction cs rule: rev_induct) simp_all
  have at_end: "cs ! (length cs - 1) = current tr"
    using P'(5) last(1) by (simp add: last_conv_nth)
  have "distinct (butlast cs @ [last cs])"
    using P'(5) last(2) by simp
  then have "current tr \<notin> set (butlast cs)"
    using last(1) by simp
  then have "current tr \<notin> set (butlast cs @ [n])"
    using n(3) by simp
  then have gone: "current tr \<notin> set (cs[length cs - 1 := n])"
    unfolding slot .
  have sub: "subtree d ?s' (current tr) = Some T"
    if "subtree d s (current tr) = Some T" "n \<notin> addrs T" "parent xn \<notin> addrs T" for d T
    using that(1)
  proof (rule subtree_frame)
    fix b assume "b \<in> addrs T"
    with that(2,3) have "b \<noteq> n" "b \<noteq> parent xn" by auto
    then show "map_option (\<lambda>nd. (token nd, children nd, id_node nd)) (nodes ?s' b)
                 = map_option (\<lambda>nd. (token nd, children nd, id_node nd)) (nodes s b)"
      using X(2) by simp
  qed
  show ?thesis
    unfolding run using False n(3) P'(1,2) slot at_end gone sub
    by (intro exI [of _ ?s']) simp
qed

theorem InsertParent_correct_witness:
  "\<exists>s'. InsertParent st_two 100 9 = Inr s'
      \<and> trees s' 100 = Some \<lparr>root = 1, current = 9, size_tree = 6\<rparr>
      \<and> nodes s' 1 = Some (inner 1 ''+'' 0 [2, 9])
      \<and> nodes s' 9 = Some (inner 9 ''*'' 1 [3])
      \<and> nodes s' 3 = Some (inner 3 ''b'' 9 [5])
      \<and> subtree (Suc (Suc 0)) s' 3 = subtree (Suc (Suc 0)) st_two 3"
proof -
  let ?tr = "\<lparr>root = 1, current = 3, size_tree = 6\<rparr>"
  have h1: "(100 :: addr) \<noteq> 0" and h2: "trees st_two 100 = Some ?tr"
    by (simp_all add: st_two_def)
  have h3: "current ?tr \<noteq> 0" and h4: "nodes st_two (current ?tr) = Some (inner 3 ''b'' 1 [5])"
    and h5: "txt (token (inner 3 ''b'' 1 [5])) \<noteq> None"
    by (simp_all add: st_two_def inner_def leaf_def)
  have h6: "(9 :: addr) \<noteq> 0" and h7: "nodes st_two 9 = Some (leaf 9 ''*'')"
    and h8: "9 \<noteq> current ?tr"
    by (simp_all add: st_two_def)
  have h9: "parent (inner 3 ''b'' 1 [5]) = 0 \<or>
            (parent (inner 3 ''b'' 1 [5]) \<noteq> 9 \<and> parent (inner 3 ''b'' 1 [5]) \<noteq> current ?tr
             \<and> nodes st_two (parent (inner 3 ''b'' 1 [5])) = Some (inner 1 ''+'' 0 [2, 3])
             \<and> children (inner 1 ''+'' 0 [2, 3]) = Some [2, 3] \<and> [2, 3 :: addr] \<noteq> []
             \<and> last [2, 3] = current ?tr \<and> distinct [2, 3 :: addr])"
    by (simp add: st_two_def inner_def leaf_def)
  have sub: "subtree (Suc (Suc 0)) st_two 3 =
               Some (Rose 3 (token (leaf 3 ''b'')) 3 [Rose 5 (token (leaf 5 ''y'')) 5 []])"
    by (simp add: st_two_def inner_def leaf_def node_at_def)
  from InsertParent_correct [OF h1 h2 h3 h4 h5 h6 h7 h8 h9]
  obtain s' where r: "InsertParent st_two 100 9 = Inr s'"
    and a: "trees s' = (trees st_two)(100 \<mapsto> ?tr\<lparr>current := 9,
              root := (if current ?tr = root ?tr then 9 else root ?tr)\<rparr>)"
    and b: "nodes s' 1 = Some ((inner 1 ''+'' 0 [2, 3])\<lparr>children := Some (butlast [2, 3] @ [9])\<rparr>)"
    and c: "nodes s' 9 = Some ((leaf 9 ''*'')\<lparr>parent := 1, children := Some [3]\<rparr>)"
    and d: "nodes s' 3 = Some ((inner 3 ''b'' 1 [5])\<lparr>parent := 9\<rparr>)"
    and e: "\<forall>d T. subtree d st_two 3 = Some T \<and> 9 \<notin> addrs T \<and> 1 \<notin> addrs T
              \<longrightarrow> subtree d s' 3 = Some T"
    by (auto simp: inner_def leaf_def)
  let ?T = "Rose 3 (token (leaf 3 ''b'')) 3 [Rose 5 (token (leaf 5 ''y'')) 5 []]"
  have "9 \<notin> addrs ?T" and "1 \<notin> addrs ?T" by simp_all
  with e sub have "subtree (Suc (Suc 0)) s' 3 = Some ?T" by blast
  with sub have "subtree (Suc (Suc 0)) s' 3 = subtree (Suc (Suc 0)) st_two 3" by (simp only:)
  with r a b c d show ?thesis by (simp add: inner_def leaf_def)
qed

section \<open>Node creation\<close>

lemma not_reach_fresh:
  assumes "nodes s a = None" "\<not> pointed_to s a" "r \<noteq> a" "children nd = None"
  shows "\<not> reach (set_tree (set_node s a nd) t tr) r a"
proof
  assume "reach (set_tree (set_node s a nd) t tr) r a"
  from reach_pointed_to [OF this] assms(3)
  have "pointed_to (set_tree (set_node s a nd) t tr) a" by simp
  then obtain p pd cs where "((nodes s)(a \<mapsto> nd)) p = Some pd" "children pd = Some cs"
    "a \<in> set cs"
    by (auto simp: pointed_to_def)
  with assms(2,4) show False
    by (cases "p = a") (auto simp: pointed_to_def)
qed

text \<open>
  C10. Let \<open>t\<close> be a live tree cell and \<open>a\<close> the address that \<open>calloc\<close> returns for the
  node: not null, not a live node, and no live cell points to it. \<open>CreateNodeByType\<close> and
  \<open>CreateNode\<close> (for a token with text) return \<open>a\<close>; the new cell has a null parent and
  no children, its id is its address, and it is not reachable from the root of \<open>t\<close>; the
  size of \<open>t\<close> grows by one while its root and cursor stay, and every other node cell and
  tree cell is as before.
\<close>

theorem create_node_frame:
  assumes "t \<noteq> 0" "trees s t = Some tr"
    and "a \<noteq> 0" "b \<noteq> 0" "nodes s a = None" "\<not> pointed_to s a" "root tr \<noteq> a"
    and "txt tk = Some x"
  shows "(\<exists>s'. CreateNodeByType tn zt zp s a b t ty = Inr (s', a)
            \<and> nodes s' = (nodes s)(a \<mapsto>
                 \<lparr>token = \<lparr>ttype = ty, txt = Some (tn ty), parser_type = zp\<rparr>,
                  children = None, parent = 0, id_node = a\<rparr>)
            \<and> trees s' = (trees s)(t \<mapsto> tr\<lparr>size_tree := size_tree tr + 1\<rparr>)
            \<and> \<not> reach s' (root tr) a)
       \<and> (\<exists>s'. CreateNode zt zp s a b t (Some tk) = Inr (s', a)
            \<and> nodes s' = (nodes s)(a \<mapsto>
                 \<lparr>token = \<lparr>ttype = ttype tk, txt = Some x, parser_type = zp\<rparr>,
                  children = None, parent = 0, id_node = a\<rparr>)
            \<and> trees s' = (trees s)(t \<mapsto> tr\<lparr>size_tree := size_tree tr + 1\<rparr>)
            \<and> \<not> reach s' (root tr) a)"
proof
  let ?nd = "\<lparr>token = \<lparr>ttype = ty, txt = Some (tn ty), parser_type = zp\<rparr>,
             children = None, parent = 0, id_node = a\<rparr>"
  let ?s' = "set_tree (set_node s a ?nd) t (tr\<lparr>size_tree := size_tree tr + 1\<rparr>)"
  have run: "CreateNodeByType tn zt zp s a b t ty = Inr (?s', a)"
    using assms(1-4)
    by (simp add: CreateNodeByType_def NodeCtor_def FillEmptyStr_def node_at_set_node
          set_node_def set_tree_def)
  have "\<not> reach ?s' (root tr) a"
    using assms(5-7) by (intro not_reach_fresh) simp_all
  with run show "\<exists>s'. CreateNodeByType tn zt zp s a b t ty = Inr (s', a)
            \<and> nodes s' = (nodes s)(a \<mapsto> ?nd)
            \<and> trees s' = (trees s)(t \<mapsto> tr\<lparr>size_tree := size_tree tr + 1\<rparr>)
            \<and> \<not> reach s' (root tr) a"
    by (intro exI [of _ ?s']) simp
next
  let ?nd = "\<lparr>token = \<lparr>ttype = ttype tk, txt = Some x, parser_type = zp\<rparr>,
             children = None, parent = 0, id_node = a\<rparr>"
  let ?s' = "set_tree (set_node s a ?nd) t (tr\<lparr>size_tree := size_tree tr + 1\<rparr>)"
  have run: "CreateNode zt zp s a b t (Some tk) = Inr (?s', a)"
    using assms(1-4,8)
    by (simp add: CreateNode_def NodeCtor_def FillEmptyStr_def node_at_set_node
          set_node_def set_tree_def)
  have "\<not> reach ?s' (root tr) a"
    using assms(5-7) by (intro not_reach_fresh) simp_all
  with run show "\<exists>s'. CreateNode zt zp s a b t (Some tk) = Inr (s', a)
            \<and> nodes s' = (nodes s)(a \<mapsto> ?nd)
            \<and> trees s' = (trees s)(t \<mapsto> tr\<lparr>size_tree := size_tree tr + 1\<rparr>)
            \<and> \<not> reach s' (root tr) a"
    by (intro exI [of _ ?s']) simp
qed

theorem create_node_frame_witness:
  "(\<exists>s'. CreateNodeByType (\<lambda>ty. ''NAME'') (TOKEN_OTHER 0) (PRSR_OTHER 0) st_root 7 8 100 TOKEN_NAME
            = Inr (s', 7)
        \<and> nodes s' 7 = Some (leaf 7 ''NAME'') \<and> nodes s' 1 = Some (leaf 1 ''a'')
        \<and> trees s' 100 = Some \<lparr>root = 1, current = 1, size_tree = 3\<rparr>
        \<and> \<not> reach s' 1 7)
   \<and> (\<exists>s'. CreateNode (TOKEN_OTHER 0) (PRSR_OTHER 0) st_root 7 8 100
              (Some \<lparr>ttype = TOKEN_NAME, txt = Some ''z'', parser_type = RULE_NAME\<rparr>)
            = Inr (s', 7)
        \<and> nodes s' 7 = Some (leaf 7 ''z'') \<and> nodes s' 1 = Some (leaf 1 ''a'')
        \<and> trees s' 100 = Some \<lparr>root = 1, current = 1, size_tree = 3\<rparr>
        \<and> \<not> reach s' 1 7)"
proof -
  let ?tr = "\<lparr>root = 1, current = 1, size_tree = 2\<rparr>"
  let ?tk = "\<lparr>ttype = TOKEN_NAME, txt = Some ''z'', parser_type = RULE_NAME\<rparr>"
  have h1: "(100 :: addr) \<noteq> 0" and h2: "trees st_root 100 = Some ?tr"
    and h3: "(7 :: addr) \<noteq> 0" and h4: "(8 :: addr) \<noteq> 0" and h5: "nodes st_root 7 = None"
    and h7: "root ?tr \<noteq> 7" and h8: "txt ?tk = Some ''z''"
    by (simp_all add: st_root_def)
  have h6: "\<not> pointed_to st_root 7"
    by (auto simp: pointed_to_def st_root_def leaf_def split: if_splits)
  from create_node_frame [OF h1 h2 h3 h4 h5 h6 h7 h8,
         of "\<lambda>ty. ''NAME''" "TOKEN_OTHER 0" "PRSR_OTHER 0" TOKEN_NAME]
  show ?thesis
    by (auto simp: st_root_def leaf_def)
qed

section \<open>Export\<close>

lemma emit_node_record:
  "txt (token nd) = Some x \<Longrightarrow> emit_node tn nd = Inr (node_record tn (token nd) (id_node nd))"
  by (simp add: emit_node_def node_record_def)

lemma subtree_root:
  "subtree d s a = Some T \<Longrightarrow>
     \<exists>nd ts. a \<noteq> 0 \<and> nodes s a = Some nd \<and> T = Rose a (token nd) (id_node nd) ts"
  by (cases d) (auto simp: node_at_Inr split: sum.splits option.splits)

text \<open>The node-emission pass writes the node records of the subtree in pre-order.\<close>

lemma PrintNode_subtree:
  "subtree d s a = Some T \<Longrightarrow> has_text T \<Longrightarrow>
     PrintNode tn d s (Some out) a = Some (Inr (out @ node_records tn T))"
  and PrintNode_loop_subtrees:
  "subtrees k s cs = Some ts \<Longrightarrow> list_all has_text ts \<Longrightarrow>
     PrintNode_loop tn k s out cs = Some (Inr (out @ concat (map (node_records tn) ts)))"
proof (induction d s a and k s cs arbitrary: T out and ts out rule: subtree_subtrees.induct)
  case (1 s a)
  then show ?case by simp
next
  case (2 k s a)
  from "2.prems"(1) obtain nd where nd: "node_at s a = Inr nd"
    by (auto split: sum.splits)
  then have a0: "a \<noteq> 0" by (simp add: node_at_Inr)
  show ?case
  proof (cases "children nd")
    case None
    with "2.prems"(1) nd have T: "T = Rose a (token nd) (id_node nd) []" by simp
    with "2.prems"(2) obtain x where "txt (token nd) = Some x" by auto
    with nd a0 None T show ?thesis by (simp add: emit_node_record)
  next
    case (Some cs)
    with "2.prems"(1) nd obtain ts where ts: "subtrees k s cs = Some ts"
      and T: "T = Rose a (token nd) (id_node nd) ts"
      by (auto split: option.splits)
    from "2.prems"(2) T obtain x where x: "txt (token nd) = Some x"
      and all: "list_all has_text ts"
      by auto
    from "2.IH" [OF nd Some ts all]
    have "PrintNode_loop tn k s (out @ [node_record tn (token nd) (id_node nd)]) cs
            = Some (Inr ((out @ [node_record tn (token nd) (id_node nd)])
                           @ concat (map (node_records tn) ts)))" .
    with nd a0 Some T x show ?thesis by (simp add: emit_node_record)
  qed
next
  case (3 k s)
  then show ?case by simp
next
  case (4 k s c cs)
  from "4.prems"(1) obtain T' ts' where T': "subtree k s c = Some T'"
    and ts': "subtrees k s cs = Some ts'" and ts: "ts = T' # ts'"
    by (auto split: option.splits)
  from "4.prems"(2) ts have h: "has_text T'" "list_all has_text ts'" by simp_all
  from "4.IH"(1) [OF T' h(1)] "4.IH"(2) [OF T' ts' h(2)] ts show ?case by simp
qed

text \<open>The first loop of the edge-emission pass writes one edge for every child.\<close>

lemma ConnectNode_edges_subtrees:
  "subtrees k s cs = Some ts \<Longrightarrow>
     ConnectNode_edges s i out cs = Inr (out @ map (\<lambda>T. Edge i (rose_id T)) ts)"
proof (induction cs arbitrary: ts out)
  case Nil
  then show ?case by simp
next
  case (Cons c cs)
  from Cons.prems obtain T' ts' where T': "subtree k s c = Some T'"
    and ts': "subtrees k s cs = Some ts'" and ts: "ts = T' # ts'"
    by (auto split: option.splits)
  from subtree_root [OF T'] obtain nd where "node_at s c = Inr nd" "rose_id T' = id_node nd"
    by (auto simp: node_at_Inr)
  with Cons.IH [OF ts'] ts show ?case by simp
qed

lemma ConnectNode_subtree:
  "subtree d s a = Some T \<Longrightarrow>
     ConnectNode d s (Some out) a = Some (Inr (out @ edge_records T))"
  and ConnectNode_loop_subtrees:
  "subtrees k s cs = Some ts \<Longrightarrow>
     ConnectNode_loop k s out cs = Some (Inr (out @ concat (map edge_records ts)))"
proof (induction d s a and k s cs arbitrary: T out and ts out rule: subtree_subtrees.induct)
  case (1 s a)
  then show ?case by simp
next
  case (2 k s a)
  from "2.prems"(1) obtain nd where nd: "node_at s a = Inr nd"
    by (auto split: sum.splits)
  then have a0: "a \<noteq> 0" by (simp add: node_at_Inr)
  show ?case
  proof (cases "children nd")
    case None
    with "2.prems"(1) nd a0 show ?thesis by auto
  next
    case (Some cs)
    with "2.prems"(1) nd obtain ts where ts: "subtrees k s cs = Some ts"
      and T: "T = Rose a (token nd) (id_node nd) ts"
      by (auto split: option.splits)
    from "2.IH" [OF nd Some ts] ConnectNode_edges_subtrees [OF ts]
    show ?thesis using nd a0 Some T by simp
  qed
next
  case (3 k s)
  then show ?case by simp
next
  case (4 k s c cs)
  from "4.prems"(1) obtain T' ts' where T': "subtree k s c = Some T'"
    and ts': "subtrees k s cs = Some ts'" and ts: "ts = T' # ts'"
    by (auto split: option.splits)
  from "4.IH"(1) [OF T'] "4.IH"(2) [OF T' ts'] ts show ?case by simp
qed

text \<open>
  C9. Let the store hold the tree \<open>T\<close> below the root of \<open>t\<close>, every node with a text.
  With fuel for the depth of \<open>T\<close> the export ends and writes the document of \<open>T\<close>: the
  header, the node records of \<open>T\<close> in pre-order, a blank line, the edge records of \<open>T\<close>
  in pre-order and the footer. The export does not write to the store, and a second
  export, from any store and tree cell that hold the same tree \<open>T\<close>, writes the same
  document.
\<close>

theorem export_determinism:
  assumes "t \<noteq> 0" "trees s t = Some tr" "subtree d s (root tr) = Some T" "has_text T"
      "d \<le> fuel"
    and "t' \<noteq> 0" "trees s' t' = Some tr'" "subtree d' s' (root tr') = Some T" "d' \<le> fuel'"
  shows "DebugTree tn fuel s True t = Some (Inr (document tn T))
         \<and> DebugTree tn fuel' s' True t' = DebugTree tn fuel s True t"
proof -
  have T1: "subtree fuel s (root tr) = Some T"
    using assms(3,5) by (rule subtree_mono)
  have T2: "subtree fuel' s' (root tr') = Some T"
    using assms(8,9) by (rule subtree_mono)
  have "DebugTree tn fuel s True t = Some (Inr (document tn T))"
    using assms(1,2) PrintNode_subtree [OF T1 assms(4)] ConnectNode_subtree [OF T1]
    by (simp add: DebugTree_def document_def)
  moreover have "DebugTree tn fuel' s' True t' = Some (Inr (document tn T))"
    using assms(6,7) PrintNode_subtree [OF T2 assms(4)] ConnectNode_subtree [OF T2]
    by (simp add: DebugTree_def document_def)
  ultimately show ?thesis by simp
qed

theorem export_determinism_witness:
  "DebugTree canonical 5 st_plus True 100 =
     Some (Inr [Header, Density,
                NodeRec 1 ''diamond'' ''black'' ''+'' [],
                NodeRec 2 ''rectangle'' ''black'' ''a'' ''NAME'',
                NodeRec 3 ''rectangle'' ''black'' ''b'' ''NAME'',
                Blank, Edge 1 2, Edge 1 3, Footer])"
proof -
  let ?tr = "\<lparr>root = 1, current = 1, size_tree = 3\<rparr>"
  let ?T = "Rose 1 \<lparr>ttype = TOKEN_OTHER 15, txt = Some ''+'', parser_type = PRSR_OTHER 0\<rparr> 1
              [Rose 2 (token (leaf 2 ''a'')) 2 [], Rose 3 (token (leaf 3 ''b'')) 3 []]"
  have h1: "(100 :: addr) \<noteq> 0" and h2: "trees st_plus 100 = Some ?tr"
    by (simp_all add: st_plus_def)
  have h3: "subtree (Suc (Suc 0)) st_plus (root ?tr) = Some ?T"
    by (simp add: st_plus_def leaf_def node_at_def)
  have h4: "has_text ?T" by (simp add: leaf_def)
  have h5: "Suc (Suc 0) \<le> 5" by simp
  from export_determinism [OF h1 h2 h3 h4 h5 h1 h2 h3 h5, of canonical]
  show ?thesis
    by (simp add: document_def node_record_def canonical_def leaf_def)
qed

section \<open>Labels of the node records\<close>

lemma node_records_nodes:
  "node_records tn T = map (\<lambda>(tk, i). node_record tn tk i) (rose_nodes T)"
proof (induction T)
  case (Rose a tk0 i0 ts)
  then have eq: "map (node_records tn) ts
               = map (\<lambda>T. map (\<lambda>(tk, i). node_record tn tk i) (rose_nodes T)) ts"
    by (intro map_cong) simp_all
  show ?case by (simp add: eq map_concat comp_def)
qed

lemma has_text_nodes:
  "has_text T \<Longrightarrow> (tk, i) \<in> set (rose_nodes T) \<Longrightarrow> txt tk \<noteq> None"
proof (induction T)
  case (Rose a tk0 j ts)
  then show ?case by (auto simp: list_all_iff)
qed

text \<open>
  C8. Let the store hold the tree \<open>T\<close> below the node \<open>n\<close>, every node with a text, and
  let canonical names be non-empty. With fuel for the depth of \<open>T\<close> the node-emission
  pass \<open>PrintNode\<close> ends and appends to the file exactly one record for every node of
  \<open>T\<close>, in pre-order. The record of a node with text \<open>x\<close> has the label \<open>x\<close>, and its
  secondary label is the canonical name of the node's token type when \<open>x\<close> differs from
  that name and is empty when they are equal: it is non-empty if and only if they differ.
\<close>

theorem secondary_label_condition:
  assumes "subtree d s n = Some T" "has_text T" "d \<le> fuel" "\<forall>ty. tn ty \<noteq> []"
  shows "PrintNode tn fuel s (Some out) n
           = Some (Inr (out @ map (\<lambda>(tk, i). node_record tn tk i) (rose_nodes T)))
         \<and> (\<forall>(tk, i) \<in> set (rose_nodes T). \<exists>x. txt tk = Some x
               \<and> node_record tn tk i
                   = NodeRec i (CellBordersFormat (ttype tk)) (CheckIfRuleName (parser_type tk)) x
                       (if x = tn (ttype tk) then [] else tn (ttype tk))
               \<and> (secondary_label (node_record tn tk i) \<noteq> [] \<longleftrightarrow> x \<noteq> tn (ttype tk)))"
proof
  have "subtree fuel s n = Some T"
    using assms(1,3) by (rule subtree_mono)
  from PrintNode_subtree [OF this assms(2)]
  show "PrintNode tn fuel s (Some out) n
          = Some (Inr (out @ map (\<lambda>(tk, i). node_record tn tk i) (rose_nodes T)))"
    by (simp add: node_records_nodes)
  show "\<forall>(tk, i) \<in> set (rose_nodes T). \<exists>x. txt tk = Some x
               \<and> node_record tn tk i
                   = NodeRec i (CellBordersFormat (ttype tk)) (CheckIfRuleName (parser_type tk)) x
                       (if x = tn (ttype tk) then [] else tn (ttype tk))
               \<and> (secondary_label (node_record tn tk i) \<noteq> [] \<longleftrightarrow> x \<noteq> tn (ttype tk))"
  proof (clarify)
    fix tk i assume "(tk, i) \<in> set (rose_nodes T)"
    from has_text_nodes [OF assms(2) this] obtain x where "txt tk = Some x" by auto
    with assms(4) show "\<exists>x. txt tk = Some x
               \<and> node_record tn tk i
                   = NodeRec i (CellBordersFormat (ttype tk)) (CheckIfRuleName (parser_type tk)) x
                       (if x = tn (ttype tk) then [] else tn (ttype tk))
               \<and> (secondary_label (node_record tn tk i) \<noteq> [] \<longleftrightarrow> x \<noteq> tn (ttype tk))"
      by (simp add: node_record_def)
  qed
qed

theorem secondary_label_condition_witness:
  "PrintNode canonical 5 st_plus (Some []) 1 =
     Some (Inr [NodeRec 1 ''diamond'' ''black'' ''+'' [],
                NodeRec 2 ''rectangle'' ''black'' ''a'' ''NAME'',
                NodeRec 3 ''rectangle'' ''black'' ''b'' ''NAME''])
   \<and> secondary_label (node_record canonical (token (leaf 2 ''a'')) 2) = ''NAME''
   \<and> secondary_label
         (node_record canonical
            \<lparr>ttype = TOKEN_OTHER 15, txt = Some ''+'', parser_type = PRSR_OTHER 0\<rparr> 1) = []"
proof -
  let ?plus = "\<lparr>ttype = TOKEN_OTHER 15, txt = Some ''+'', parser_type = PRSR_OTHER 0\<rparr>"
  let ?T = "Rose 1 ?plus 1
              [Rose 2 (token (leaf 2 ''a'')) 2 [], Rose 3 (token (leaf 3 ''b'')) 3 []]"
  have h1: "subtree (Suc (Suc 0)) st_plus 1 = Some ?T"
    by (simp add: st_plus_def leaf_def node_at_def)
  have h2: "has_text ?T" by (simp add: leaf_def)
  have h3: "Suc (Suc 0) \<le> 5" by simp
  have h4: "\<forall>ty. canonical ty \<noteq> []" by (simp add: canonical_def)
  have c: "canonical TOKEN_NAME = ''NAME''" "canonical (TOKEN_OTHER 15) = ''+''"
    by (simp_all add: canonical_def)
  from secondary_label_condition [OF h1 h2 h3 h4, of "[]"]
  show ?thesis
    by (simp add: node_record_def leaf_def c)
qed

section \<open>Parent pointers, children arrays and tokens under the store updates\<close>

lemma texted_live: "texted s p \<Longrightarrow> p \<noteq> 0 \<and> (\<exists>nd. nodes s p = Some nd \<and> txt (token nd) \<noteq> None)"
  by (auto simp: texted_def tok_def split: option.splits)

lemma view_set_tree [simp]:
  "par (set_tree s t tr) = par s" "kids (set_tree s t tr) = kids s" "tok (set_tree s t tr) = tok s"
  by (simp_all add: par_def kids_def tok_def fun_eq_iff)

lemma view_set_children:
  "nodes s p = Some nd \<Longrightarrow>
     par (set_node s p (nd\<lparr>children := Some cs\<rparr>)) = par s
     \<and> kids (set_node s p (nd\<lparr>children := Some cs\<rparr>)) = (kids s)(p := cs)
     \<and> tok (set_node s p (nd\<lparr>children := Some cs\<rparr>)) = tok s"
  by (auto simp: par_def kids_def tok_def fun_eq_iff)

lemma view_set_parent:
  "nodes s p = Some nd \<Longrightarrow>
     par (set_node s p (nd\<lparr>parent := q\<rparr>)) = (par s)(p := q)
     \<and> kids (set_node s p (nd\<lparr>parent := q\<rparr>)) = kids s
     \<and> tok (set_node s p (nd\<lparr>parent := q\<rparr>)) = tok s"
  by (auto simp: par_def kids_def tok_def fun_eq_iff)

text \<open>What the append branch of AddChild does, in the three readings.\<close>

lemma AddChild_view:
  assumes "t \<noteq> 0" "texted s c" "trees s t = Some tr" "current tr \<noteq> 0"
    and "nodes s (current tr) = Some cur"
  shows "\<exists>s'. AddChild s t c = Inr (s', c)
           \<and> tok s' = tok s \<and> par s' = (par s)(c := current tr)
           \<and> kids s' = (kids s)(current tr := kids s (current tr) @ [c])
           \<and> trees s' = (trees s)(t \<mapsto> tr\<lparr>current := c\<rparr>)"
proof -
  from texted_live [OF assms(2)] obtain nc where c: "c \<noteq> 0" "nodes s c = Some nc"
    "txt (token nc) \<noteq> None" by blast
  let ?cs = "(case children cur of None \<Rightarrow> [] | Some old \<Rightarrow> old) @ [c]"
  let ?s1 = "set_node s (current tr) (cur\<lparr>children := Some ?cs\<rparr>)"
  let ?cn = "if c = current tr then cur\<lparr>children := Some ?cs\<rparr> else nc"
  let ?s2 = "set_node ?s1 c (?cn\<lparr>parent := current tr\<rparr>)"
  have run: "AddChild s t c = Inr (set_tree ?s2 t (tr\<lparr>current := c\<rparr>), c)"
    using AddChild_append [OF assms(1) c assms(3,4,5)] by (simp add: Let_def)
  have k: "kids s (current tr) @ [c] = ?cs"
    using assms(5) by (simp add: kids_def split: option.splits)
  have v1: "par ?s1 = par s \<and> kids ?s1 = (kids s)(current tr := ?cs) \<and> tok ?s1 = tok s"
    using assms(5) by (rule view_set_children)
  have n1: "nodes ?s1 c = Some ?cn"
    using c(2) by simp
  have v2: "par ?s2 = (par ?s1)(c := current tr) \<and> kids ?s2 = kids ?s1 \<and> tok ?s2 = tok ?s1"
    using n1 by (rule view_set_parent)
  show ?thesis
    unfolding run using v1 v2 k by simp
qed

section \<open>AppendTree\<close>

text \<open>One run of the loop body, in the three readings of the store.\<close>

lemma tok_live: "tok s p \<noteq> None \<Longrightarrow> \<exists>nd. nodes s p = Some nd"
  by (auto simp: tok_def)

lemma par_live: "nodes s p = Some nd \<Longrightarrow> par s p = parent nd"
  by (simp add: par_def)

lemma texted_tok: "tok s' = tok s \<Longrightarrow> texted s' = texted s"
  by (simp add: texted_def fun_eq_iff)

lemma GetChild_kids:
  "p \<noteq> 0 \<Longrightarrow> i < length (kids s p) \<Longrightarrow> GetChild s p i = Inr (kids s p ! i)"
  by (auto simp: GetChild_def kids_def node_at_def split: option.splits)

lemma Parent_view:
  assumes "t \<noteq> 0" "trees s t = Some tr" "current tr \<noteq> 0" "tok s (current tr) \<noteq> None"
  shows "Parent s t = Inr (set_tree s t (tr\<lparr>current := par s (current tr)\<rparr>))"
proof -
  from tok_live [OF assms(4)] obtain cur where "nodes s (current tr) = Some cur" by blast
  with assms(1-3) show ?thesis by (simp add: Parent_def par_def)
qed

lemma AppendTree_body_view:
  assumes first: "first \<noteq> 0" "trees s first = Some tr1" "current tr1 = F" "F \<noteq> 0"
      "tok s F \<noteq> None"
    and S: "S \<noteq> 0" "i < length (kids s S)" "texted s (kids s S ! i)"
    and c': "i \<le> length (kids s F)" "(kids s F @ [kids s S ! i]) ! i \<noteq> 0"
      "tok s ((kids s F @ [kids s S ! i]) ! i) \<noteq> None"
  shows "\<exists>s'. AppendTree_body s first S i = Inr s'
           \<and> trees s' = trees s \<and> tok s' = tok s
           \<and> kids s' = (kids s)(F := kids s F @ [kids s S ! i])
           \<and> par s' = (par s)(kids s S ! i := F, (kids s F @ [kids s S ! i]) ! i := F)"
proof -
  let ?c = "kids s S ! i"
  let ?c' = "(kids s F @ [?c]) ! i"
  from tok_live [OF first(5)] obtain cur where cur: "nodes s F = Some cur" by blast
  from AddChild_view [OF first(1) S(3) first(2)] first(3,4) cur
  obtain s1 where s1: "AddChild s first ?c = Inr (s1, ?c)"
    and v1: "tok s1 = tok s" "par s1 = (par s)(?c := F)"
      "kids s1 = (kids s)(F := kids s F @ [?c])"
      "trees s1 = (trees s)(first \<mapsto> tr1\<lparr>current := ?c\<rparr>)"
    by auto
  from S(3) have c0: "?c \<noteq> 0" and ct: "tok s ?c \<noteq> None"
    by (auto simp: texted_def split: option.splits)
  have s2: "Parent s1 first = Inr (set_tree s1 first tr1)"
    using Parent_view [of first s1 "tr1\<lparr>current := ?c\<rparr>"] first(1,3) v1(1,2,4) c0 ct
    by auto
  let ?s2 = "set_tree s1 first tr1"
  have t2: "trees ?s2 = trees s"
    using v1(4) first(2) by (auto simp: fun_eq_iff)
  have g: "GetChild ?s2 F i = Inr ?c'"
    using GetChild_kids [of F i ?s2] first(4) c'(1) v1(3) by simp
  from c'(3) v1(1) have "tok ?s2 ?c' \<noteq> None" by simp
  from tok_live [OF this] obtain cn where cn: "nodes ?s2 ?c' = Some cn" by blast
  let ?s3 = "set_node ?s2 ?c' (cn\<lparr>parent := F\<rparr>)"
  from view_set_parent [OF cn, of F]
  have v3: "par ?s3 = (par ?s2)(?c' := F)" "kids ?s3 = kids ?s2" "tok ?s3 = tok ?s2"
    by simp_all
  have run: "AppendTree_body s first S i = Inr ?s3"
    using GetChild_kids [OF S(1,2)] s1 s2 first(1,2,3) t2 g cn c'(2)
    by (simp add: AppendTree_body_def tree_at_def)
  show ?thesis
    unfolding run using v3 v1 t2 by simp
qed

text \<open>The loop, when the two cursors differ: it ends after one round for every child.\<close>

lemma kids_array:
  "kids s p = cs \<Longrightarrow> cs \<noteq> [] \<Longrightarrow> \<exists>nd. nodes s p = Some nd \<and> children nd = Some cs"
  by (auto simp: kids_def split: option.splits)

lemma append_inv_step:
  assumes first: "first \<noteq> 0" "trees s0 first = Some tr1" "current tr1 = F" "F \<noteq> 0"
      "tok s0 F \<noteq> None"
    and S: "S \<noteq> 0" "S \<noteq> F" "kids s0 S = cs"
    and live: "\<forall>c \<in> set cs. texted s0 c" "\<forall>c \<in> set (kids s0 F). c \<noteq> 0 \<and> tok s0 c \<noteq> None"
    and inv: "append_inv s0 F cs i s" and i: "i < length cs"
  shows "\<exists>s'. AppendTree_body s first S i = Inr s' \<and> append_inv s0 F cs (Suc i) s'"
proof -
  from inv have v: "trees s = trees s0" "tok s = tok s0"
    "kids s = (kids s0)(F := kids s0 F @ take i cs)"
    "par s = (\<lambda>N. if N \<in> set (take i cs) \<union> set (take i (kids s0 F @ cs)) then F else par s0 N)"
    by (simp_all add: append_inv_def)
  let ?old = "kids s0 F"
  have kS: "kids s S = cs" using v(3) S(2,3) by simp
  have kF: "kids s F = ?old @ take i cs" using v(3) by simp
  let ?c = "cs ! i"
  have "kids s F @ [kids s S ! i] = ?old @ take (Suc i) cs"
    using i by (simp add: kS kF take_Suc_conv_app_nth)
  then have c'eq: "(kids s F @ [kids s S ! i]) ! i = (?old @ cs) ! i"
    by (simp add: nth_append)
  have tx: "texted s = texted s0" using v(2) by (rule texted_tok)
  have h1: "texted s (kids s S ! i)" using live(1) i kS tx by simp
  have mem: "(?old @ cs) ! i \<in> set ?old \<union> set cs"
    using i by (metis length_append nth_mem set_append trans_less_add2)
  have h2: "(kids s F @ [kids s S ! i]) ! i \<noteq> 0 \<and> tok s ((kids s F @ [kids s S ! i]) ! i) \<noteq> None"
    unfolding c'eq v(2) using mem live
    by (auto simp: texted_def split: option.splits)
  have h3: "i \<le> length (kids s F)" using i by (simp add: kF)
  from AppendTree_body_view [of first s tr1 F S i] first S(1) i kS h1 h2 h3 v(1,2)
  obtain s' where run: "AppendTree_body s first S i = Inr s'"
    and v': "trees s' = trees s" "tok s' = tok s"
      "kids s' = (kids s)(F := kids s F @ [kids s S ! i])"
      "par s' = (par s)(kids s S ! i := F, (kids s F @ [kids s S ! i]) ! i := F)"
    by auto
  have t1: "take (Suc i) cs = take i cs @ [cs ! i]"
    using i by (simp add: take_Suc_conv_app_nth)
  have t2: "take (Suc i) (?old @ cs) = take i (?old @ cs) @ [(?old @ cs) ! i]"
    using i by (intro take_Suc_conv_app_nth) simp
  from v'(3) have "kids s' = (kids s)(F := kids s F @ [cs ! i])"
    unfolding kS .
  then have "kids s' = (kids s)(F := ?old @ take (Suc i) cs)"
    unfolding kF t1 by simp
  then have k': "kids s' = (kids s0)(F := ?old @ take (Suc i) cs)"
    unfolding v(3) by simp
  have c'eq2: "(kids s F @ [cs ! i]) ! i = (?old @ cs) ! i"
    using c'eq kS by simp
  from v'(4) have p': "par s' = (par s)(cs ! i := F, (?old @ cs) ! i := F)"
    unfolding kS c'eq2 .
  have p'': "par s' = (\<lambda>N. if N \<in> set (take (Suc i) cs) \<union> set (take (Suc i) (?old @ cs))
                              then F else par s0 N)"
    unfolding p' v(4) t1 t2 by (rule ext) simp
  have "append_inv s0 F cs (Suc i) s'"
    unfolding append_inv_def using v'(1,2) v(1,2) k' p'' by simp
  with run show ?thesis by blast
qed

lemma AppendTree_loop_run:
  assumes first: "first \<noteq> 0" "trees s0 first = Some tr1" "current tr1 = F" "F \<noteq> 0"
      "tok s0 F \<noteq> None"
    and S: "S \<noteq> 0" "S \<noteq> F" "kids s0 S = cs" "cs \<noteq> []"
    and live: "\<forall>c \<in> set cs. texted s0 c" "\<forall>c \<in> set (kids s0 F). c \<noteq> 0 \<and> tok s0 c \<noteq> None"
  shows "append_inv s0 F cs i s \<Longrightarrow> i \<le> length cs \<Longrightarrow> length cs - i < fuel \<Longrightarrow>
           \<exists>s'. AppendTree_loop fuel s first S i = Some (Inr s')
                 \<and> append_inv s0 F cs (length cs) s'"
proof (induction fuel arbitrary: i s)
  case 0
  then show ?case by simp
next
  case (Suc fuel)
  from Suc.prems(1) S(2,3) have "kids s S = cs" by (simp add: append_inv_def)
  from kids_array [OF this S(4)] obtain sc where sc: "nodes s S = Some sc"
    "children sc = Some cs" by blast
  show ?case
  proof (cases "i < length cs")
    case True
    from append_inv_step [OF first S(1-3) live Suc.prems(1) True]
    obtain s1 where s1: "AppendTree_body s first S i = Inr s1"
      and inv1: "append_inv s0 F cs (Suc i) s1" by blast
    have "Suc i \<le> length cs" and "length cs - Suc i < fuel"
      using True Suc.prems(3) by simp_all
    from Suc.IH [OF inv1 this]
    obtain s' where "AppendTree_loop fuel s1 first S (Suc i) = Some (Inr s')"
      "append_inv s0 F cs (length cs) s'"
      by auto
    with sc S(1) True s1 show ?thesis by simp
  next
    case False
    with Suc.prems(2) have "i = length cs" by simp
    with sc S(1) Suc.prems(1) show ?thesis by simp
  qed
qed

text \<open>The whole call, for two different cursors.\<close>

lemma AppendTree_view:
  assumes first: "first \<noteq> 0" "trees s0 first = Some tr1" "current tr1 = F" "F \<noteq> 0"
      "tok s0 F \<noteq> None"
    and second: "second \<noteq> 0" "trees s0 second = Some tr2" "current tr2 = S"
    and S: "S \<noteq> 0" "S \<noteq> F" "kids s0 S = cs" "cs \<noteq> []"
    and live: "\<forall>c \<in> set cs. texted s0 c" "\<forall>c \<in> set (kids s0 F). c \<noteq> 0 \<and> tok s0 c \<noteq> None"
    and fuel: "length cs < fuel"
  shows "\<exists>s'. AppendTree fuel s0 first second = Some (Inr s')
           \<and> trees s' = (trees s0)(second \<mapsto> tr2\<lparr>current := F\<rparr>)
           \<and> tok s' = tok s0
           \<and> kids s' = (kids s0)(F := kids s0 F @ cs)
           \<and> par s' = (\<lambda>N. if N \<in> set cs \<union> set (take (length cs) (kids s0 F @ cs)) then F
                              else par s0 N)"
proof -
  from kids_array [OF S(3,4)] obtain sc where sc: "nodes s0 S = Some sc" "children sc = Some cs"
    by blast
  have "append_inv s0 F cs 0 s0"
    by (simp add: append_inv_def)
  from AppendTree_loop_run [OF first S live this, of fuel] fuel
  obtain s1 where loop: "AppendTree_loop fuel s0 first S 0 = Some (Inr s1)"
    and inv: "append_inv s0 F cs (length cs) s1"
    by auto
  from inv have v: "trees s1 = trees s0" "tok s1 = tok s0"
    "kids s1 = (kids s0)(F := kids s0 F @ cs)"
    "par s1 = (\<lambda>N. if N \<in> set cs \<union> set (take (length cs) (kids s0 F @ cs)) then F
                    else par s0 N)"
    by (simp_all add: append_inv_def)
  have "AppendTree fuel s0 first second
          = Some (Inr (set_tree s1 second (tr2\<lparr>current := F\<rparr>)))"
    using first(1-3) second S(1) sc loop v(1)
    by (simp add: AppendTree_def tree_at_def)
  with v show ?thesis by simp
qed

text \<open>
  Conservation, for two different cursors and a second cursor with children: the first
  cursor gains the children of the second in their order, each gets the first cursor as
  its parent, and the second tree's cursor ends on the first cursor.
\<close>

lemma AppendTree_conservation:
  assumes "first \<noteq> 0" "second \<noteq> 0" "trees s first \<noteq> None" "trees s second \<noteq> None"
    and "cursor s first \<noteq> 0" "tok s (cursor s first) \<noteq> None"
    and "cursor s second \<noteq> 0" "cursor s second \<noteq> cursor s first"
      "kids s (cursor s second) \<noteq> []"
    and "\<forall>c \<in> set (kids s (cursor s second)). texted s c"
      "\<forall>c \<in> set (kids s (cursor s first)). c \<noteq> 0 \<and> tok s c \<noteq> None"
    and "length (kids s (cursor s second)) < fuel"
  shows "\<exists>s'. AppendTree fuel s first second = Some (Inr s')
           \<and> kids s' (cursor s first) = kids s (cursor s first) @ kids s (cursor s second)
           \<and> (\<forall>c \<in> set (kids s (cursor s second)). par s' c = cursor s first)
           \<and> cursor s' second = cursor s first"
proof -
  from assms(3,4) obtain tr1 tr2 where tr: "trees s first = Some tr1" "trees s second = Some tr2"
    by blast
  then have c: "cursor s first = current tr1" "cursor s second = current tr2"
    by (simp_all add: cursor_def)
  from AppendTree_view [OF assms(1) tr(1) refl _ _ assms(2) tr(2) refl _ _ refl, of fuel]
    assms(5-12) c
  obtain s' where "AppendTree fuel s first second = Some (Inr s')"
    "trees s' = (trees s)(second \<mapsto> tr2\<lparr>current := current tr1\<rparr>)"
    "kids s' = (kids s)(current tr1 := kids s (current tr1) @ kids s (current tr2))"
    "par s' = (\<lambda>N. if N \<in> set (kids s (current tr2))
                          \<union> set (take (length (kids s (current tr2)))
                                 (kids s (current tr1) @ kids s (current tr2)))
                     then current tr1 else par s N)"
    by auto
  then show ?thesis unfolding c by (auto simp: cursor_def)
qed

text \<open>When the two cursors are the same node, its array grows in every round.\<close>

lemma AppendTree_loop_alias:
  assumes first: "first \<noteq> 0" "trees s0 first = Some tr1" "current tr1 = F" "F \<noteq> 0"
    and live: "\<forall>c \<in> set (kids s0 F). texted s0 c"
  shows "trees s = trees s0 \<Longrightarrow> tok s = tok s0 \<Longrightarrow> set (kids s F) \<subseteq> set (kids s0 F) \<Longrightarrow>
           i < length (kids s F) \<Longrightarrow> AppendTree_loop fuel s first F i = None"
proof (induction fuel arbitrary: s i)
  case 0
  then show ?case by simp
next
  case (Suc fuel)
  from Suc.prems(4) have ne: "kids s F \<noteq> []" by auto
  from kids_array [OF refl ne] obtain sc where sc: "nodes s F = Some sc"
    "children sc = Some (kids s F)" by blast
  then have tF: "tok s F \<noteq> None" by (simp add: tok_def)
  have tx: "texted s = texted s0" using Suc.prems(2) by (rule texted_tok)
  have el: "kids s F ! i \<in> set (kids s0 F)"
    using Suc.prems(3,4) by (meson nth_mem subsetD)
  with live tx have h1: "texted s (kids s F ! i)" by simp
  have c': "(kids s F @ [kids s F ! i]) ! i = kids s F ! i"
    using Suc.prems(4) by (simp add: nth_append)
  from h1 have h2: "kids s F ! i \<noteq> 0" "tok s (kids s F ! i) \<noteq> None"
    by (auto simp: texted_def split: option.splits)
  from AppendTree_body_view [of first s tr1 F F i] first Suc.prems(1,4) tF h1 h2 c'
  obtain s' where run: "AppendTree_body s first F i = Inr s'"
    and v: "trees s' = trees s" "tok s' = tok s"
      "kids s' = (kids s)(F := kids s F @ [kids s F ! i])"
    by auto
  have "AppendTree_loop fuel s' first F (Suc i) = None"
  proof (rule Suc.IH)
    show "trees s' = trees s0" "tok s' = tok s0" using v Suc.prems(1,2) by simp_all
    show "set (kids s' F) \<subseteq> set (kids s0 F)" using v(3) Suc.prems(3) el by simp
    show "Suc i < length (kids s' F)" using v(3) Suc.prems(4) by simp
  qed
  with sc first(4) Suc.prems(4) run show ?case by simp
qed

lemma AppendTree_alias_diverges:
  assumes "first \<noteq> 0" "second \<noteq> 0" "trees s first \<noteq> None" "trees s second \<noteq> None"
    and "cursor s first \<noteq> 0" "cursor s second = cursor s first"
    and "kids s (cursor s first) \<noteq> []" "\<forall>c \<in> set (kids s (cursor s first)). texted s c"
  shows "AppendTree fuel s first second = None"
proof -
  from assms(3,4) obtain tr1 tr2 where tr: "trees s first = Some tr1" "trees s second = Some tr2"
    by blast
  then have c: "cursor s first = current tr1" "cursor s second = current tr2"
    by (simp_all add: cursor_def)
  from assms(6) c have eq: "current tr2 = current tr1" by simp
  from kids_array [OF refl assms(7)] c obtain sc where sc: "nodes s (current tr1) = Some sc"
    "children sc = Some (kids s (current tr1))" by auto
  have "AppendTree_loop fuel s first (current tr1) 0 = None"
    using assms(1) tr(1) refl _ _ refl refl subset_refl
  proof (rule AppendTree_loop_alias)
    show "current tr1 \<noteq> 0" using assms(5) c by simp
    show "\<forall>c \<in> set (kids s (current tr1)). texted s c" using assms(8) c by simp
    show "0 < length (kids s (current tr1))" using assms(7) c by simp
  qed
  with assms(2,5) tr(2) eq sc c show ?thesis
    by (simp add: AppendTree_def tree_at_def)
qed

text \<open>
  C3 (the failing input). In \<open>st_pair\<close> the cursor of the second tree is a leaf: it never
  had a child, so its \<open>children\<close> pointer is null and it has \<open>k = 0\<close> children.
  \<open>AppendTree\<close> reads \<open>second_cur->children->size\<close> without the null test that
  \<open>AddChild\<close>, \<open>PrintNode\<close> and \<open>ConnectNode\<close> make: the call does not append zero
  children and redirect the second cursor, it dereferences the null pointer.
\<close>

theorem AppendTree_leaf_null_deref:
  "AppendTree fuel st_pair 100 200 = Some (Inl NullDeref)"
  by (simp add: AppendTree_def st_pair_def leaf_def node_at_def tree_at_def)

section \<open>Parent-child symmetry\<close>

text \<open>
  C1 (the failing input). Parent-child symmetry asks that every node with a parent \<open>P\<close>
  occurs exactly once among the children of \<open>P\<close>, at the position where it was
  inserted, that the parent pointer of a node listed below \<open>P\<close> is \<open>P\<close>, and that this
  holds after every \<open>AddChild\<close>, \<open>InsertParent\<close> and \<open>AppendTree\<close> call. The build
  sequence on \<open>st_six\<close> uses these operations only, each with a fresh node.
  \<^item> In \<open>st_built\<close> node 1 is the one child of node 2 and has the parent pointer 2.
    \<open>AppendTree\<close> moves it below node 3 and never updates the array of node 2, the old
    cursor of the second tree: in \<open>st_appended\<close> node 1 is listed below node 2 and below
    node 3, and its parent pointer is 3.
  \<^item> In \<open>st_before\<close> node 5 was added last below node 3 and sits at index 2 of its
    children, and the cursor of tree 100 is node 4, at index 1. \<open>InsertParent(100, 6)\<close>
    writes the new parent 6 into the last slot of node 3's children, the write that the
    source marks as to be fixed, and not into the slot of the cursor: in \<open>st_after\<close>
    node 5 still has the parent pointer 3 and occurs nowhere among the children of 3, its
    slot holds node 6, and node 4 is still listed below 3 while its parent pointer is 6.
\<close>

theorem InsertParent_last_slot_breaks_symmetry:
  "build_run = Inr st_built
   \<and> kids st_built 2 = [1] \<and> par st_built 1 = 2 \<and> kids st_built 3 = []
   \<and> AppendTree (Suc (Suc 0)) st_built 100 200 = Some (Inr st_appended)
   \<and> kids st_appended 2 = [1] \<and> kids st_appended 3 = [1] \<and> par st_appended 1 = 3
   \<and> alias_run = Inr st_before
   \<and> cursor st_before 100 = 4 \<and> kids st_before 3 = [1, 4, 5]
   \<and> par st_before 4 = 3 \<and> par st_before 5 = 3
   \<and> InsertParent st_before 100 6 = Inr st_after
   \<and> kids st_after 3 = [1, 4, 6]
   \<and> par st_after 5 = 3 \<and> count_list (kids st_after 3) 5 = 0
   \<and> par st_after 4 = 6 \<and> count_list (kids st_after 3) 4 = 1 \<and> kids st_after 6 = [4]"
proof (intro conjI)
  show "build_run = Inr st_built"
    by (simp add: build_run_def st_six_def st_built_def leaf_def inner_def AddChild_def
          InsertParent_def Parent_def GetChild_def node_at_def tree_at_def set_tree_def
          set_node_def Let_def)
       (auto simp: fun_eq_iff)
  show "AppendTree (Suc (Suc 0)) st_built 100 200 = Some (Inr st_appended)"
    by (simp add: st_built_def st_appended_def leaf_def inner_def AddChild_def AppendTree_def
          AppendTree_body_def Parent_def GetChild_def node_at_def tree_at_def set_tree_def
          set_node_def Let_def)
       (auto simp: fun_eq_iff)
  show "alias_run = Inr st_before"
    by (simp add: alias_run_def st_appended_def st_before_def leaf_def inner_def AddChild_def
          GetChild_def node_at_def tree_at_def set_tree_def set_node_def Let_def)
       (auto simp: fun_eq_iff)
  show "InsertParent st_before 100 6 = Inr st_after"
    by (simp add: st_after_def st_before_def leaf_def inner_def AddChild_def InsertParent_def
          Parent_def GetChild_def node_at_def tree_at_def set_tree_def set_node_def Let_def)
       (auto simp: fun_eq_iff)
  show "kids st_built 2 = [1]" "par st_built 1 = 2" "kids st_built 3 = []"
    by (simp_all add: kids_def par_def st_built_def leaf_def inner_def)
  show "kids st_appended 2 = [1]" "kids st_appended 3 = [1]" "par st_appended 1 = 3"
    by (simp_all add: kids_def par_def st_appended_def leaf_def inner_def)
  show "cursor st_before 100 = 4" "kids st_before 3 = [1, 4, 5]"
    "par st_before 4 = 3" "par st_before 5 = 3"
    by (simp_all add: cursor_def kids_def par_def st_before_def leaf_def inner_def)
  show "kids st_after 3 = [1, 4, 6]" "par st_after 5 = 3" "count_list (kids st_after 3) 5 = 0"
    "par st_after 4 = 6" "count_list (kids st_after 3) 4 = 1" "kids st_after 6 = [4]"
    by (simp_all add: kids_def par_def st_after_def leaf_def inner_def)
qed

end
